theory Spec2Isabelle
  imports Complex_Main "HOL-Library.Multiset"
begin

section \<open>Data model\<close>

text \<open>
  The protobuf messages used by \<^verbatim>\<open>genotypekit.cpp\<close>. A \<^verbatim>\<open>Visit\<close> carries
  a node id (0 when the visit is to a child snarl), an optional embedded \<^verbatim>\<open>Snarl\<close>
  message and the orientation flag. A \<^verbatim>\<open>Snarl\<close> carries its two boundary
  visits, an optional parent, its type, and the connectivity flags. Node ids are 64-bit
  integers in the source; they are only compared (with each other and with 0), never computed
  with, so they are modelled as \<open>int\<close>.
\<close>

datatype SnarlType = UNCLASSIFIED | ULTRABUBBLE | UNARY

datatype Visit =
  Visit (node_id: int) (snarl_field: "Snarl option") (backward: bool)
and Snarl =
  Snarl (type: SnarlType) (start: Visit) (end': Visit) (parent_field: "Snarl option")
        (start_self_reachable: bool) (end_self_reachable: bool)
        (start_end_reachable: bool) (directed_acyclic_net_graph: bool)

text \<open>Default-constructed messages: every scalar is 0/false, every sub-message unset.\<close>

definition Visit_default :: Visit where
  "Visit_default = Visit 0 None False"

definition Snarl_default :: Snarl where
  "Snarl_default = Snarl UNCLASSIFIED Visit_default Visit_default None False False False False"

text \<open>The accessor of an unset sub-message returns the default instance.\<close>

definition snarl :: "Visit \<Rightarrow> Snarl" where
  "snarl v = (case snarl_field v of None \<Rightarrow> Snarl_default | Some s \<Rightarrow> s)"

section \<open>Failures\<close>

text \<open>
  Every way a call can fail to return a value is a constructor: a failed \<^verbatim>\<open>assert\<close>
  (with the asserted expression), a thrown \<^verbatim>\<open>runtime_error\<close> (with its message; the
  one that names the anchor it could not find has a constructor of its own, carrying the
  anchor visit and the site's two boundaries), \<^verbatim>\<open>std::out_of_range\<close> from
  \<^verbatim>\<open>map::at\<close>, a null pointer dereference, an access past the end of a container
  (\<^verbatim>\<open>operator[]\<close>, \<^verbatim>\<open>front()\<close>, \<^verbatim>\<open>back()\<close>), and a loop that never ends.
  A fallible function returns \<open>error + 'a\<close>.
\<close>

datatype error =
  AssertionFailure string
  | RuntimeError string
  | CouldNotFind Visit Visit Visit
  | OutOfRange
  | NullDereference
  | IndexOutOfBounds
  | DoesNotReturn

section \<open>Support arithmetic\<close>

text \<open>
  The \<^verbatim>\<open>Support\<close> message has five \<^verbatim>\<open>double\<close> fields. The functions
  below only compare, add and default-initialise them, so the field type is any linearly
  ordered type with addition and zero.
\<close>

record 'a Support =
  quality :: 'a
  forward :: 'a
  reverse :: 'a
  left :: 'a
  right :: 'a

definition Support_default :: "('a::zero) Support" where
  "Support_default = \<lparr>quality = 0, forward = 0, reverse = 0, left = 0, right = 0\<rparr>"

text \<open>\<^verbatim>\<open>std::min(a, b)\<close> is \<^verbatim>\<open>(b < a) ? b : a\<close> and \<^verbatim>\<open>std::max(a, b)\<close> is \<^verbatim>\<open>(a < b) ? b : a\<close>.\<close>

definition std_min :: "('a::ord) \<Rightarrow> 'a \<Rightarrow> 'a" where
  "std_min a b = (if b < a then b else a)"

definition std_max :: "('a::ord) \<Rightarrow> 'a \<Rightarrow> 'a" where
  "std_max a b = (if a < b then b else a)"

definition make_support :: "('a::zero) \<Rightarrow> 'a \<Rightarrow> 'a \<Rightarrow> 'a Support" where
  "make_support fwd rev' qual =
     Support_default\<lparr>forward := fwd, reverse := rev', quality := qual\<rparr>"

definition total_support :: "('a::plus) Support \<Rightarrow> 'a" where
  "total_support support = forward support + reverse support"

definition support_min :: "('a::{ord,zero}) Support \<Rightarrow> 'a Support \<Rightarrow> 'a Support" where
  "support_min a b =
     Support_default\<lparr>forward := std_min (forward a) (forward b),
                     reverse := std_min (reverse a) (reverse b),
                     quality := std_min (quality a) (quality b)\<rparr>"

definition support_max :: "('a::{ord,zero}) Support \<Rightarrow> 'a Support \<Rightarrow> 'a Support" where
  "support_max a b =
     Support_default\<lparr>forward := std_max (forward a) (forward b),
                     reverse := std_max (reverse a) (reverse b),
                     quality := std_max (quality a) (quality b)\<rparr>"

definition support_add :: "('a::{plus,zero}) Support \<Rightarrow> 'a Support \<Rightarrow> 'a Support" where
  "support_add one other =
     Support_default\<lparr>forward := forward one + forward other,
                     reverse := reverse one + reverse other,
                     left := left one + left other,
                     right := right one + right other,
                     quality := quality one + quality other\<rparr>"

text \<open>The claim of C8 as the specification words it: a minimum over every component.\<close>

definition componentwise_min :: "('a::linorder) Support \<Rightarrow> 'a Support \<Rightarrow> 'a Support" where
  "componentwise_min a b =
     \<lparr>quality = min (quality a) (quality b), forward = min (forward a) (forward b),
      reverse = min (reverse a) (reverse b), left = min (left a) (left b),
      right = min (right a) (right b)\<rparr>"

section \<open>Snarl finder\<close>

subsection \<open>Snarl field setters\<close>

primrec set_type :: "SnarlType \<Rightarrow> Snarl \<Rightarrow> Snarl" where
  "set_type t (Snarl _ s e p ss ee se dag) = Snarl t s e p ss ee se dag"

primrec set_boundaries :: "Visit \<Rightarrow> Visit \<Rightarrow> Snarl \<Rightarrow> Snarl" where
  "set_boundaries s e (Snarl t _ _ p ss ee se dag) = Snarl t s e p ss ee se dag"

primrec set_parent :: "Snarl \<Rightarrow> Snarl \<Rightarrow> Snarl" where
  "set_parent p (Snarl t s e _ ss ee se dag) = Snarl t s e (Some p) ss ee se dag"

primrec set_connectivity :: "bool \<Rightarrow> bool \<Rightarrow> bool \<Rightarrow> Snarl \<Rightarrow> Snarl" where
  "set_connectivity ss ee se (Snarl t s e p _ _ _ dag) = Snarl t s e p ss ee se dag"

primrec set_directed_acyclic_net_graph :: "bool \<Rightarrow> Snarl \<Rightarrow> Snarl" where
  "set_directed_acyclic_net_graph dag (Snarl t s e p ss ee se _) = Snarl t s e p ss ee se dag"

subsection \<open>The cactus decomposition\<close>

text \<open>
  The decomposition primitive hands \<^verbatim>\<open>recursively_emit_snarls\<close> a tree of
  \<^verbatim>\<open>stSnarl\<close> structs: two edge ends, each carrying the \<^verbatim>\<open>CactusSide\<close> (node id
  and which end of the node faces the interior), a list of child chains and a list of
  unary child snarls. A \<^verbatim>\<open>CactusSide\<close> has the fields of a \<^verbatim>\<open>NodeSide\<close>, the
  struct the traversal finder uses for one end of a node.
\<close>

record NodeSide =
  node :: int
  is_end :: bool

type_synonym CactusSide = NodeSide

datatype stSnarl =
  stSnarl (edgeEnd1: CactusSide) (edgeEnd2: CactusSide)
          (chains: "stSnarl list list") (unarySnarls: "stSnarl list")

subsection \<open>Snarl manager\<close>

text \<open>
  Modelled from the spec: the \<^verbatim>\<open>SnarlManager\<close> class (it lives in a file that is not
  among the sources). It owns all snarl instances and the forest of chains; a
  \<^verbatim>\<open>const Snarl*\<close> into its storage is an index into \<open>managed_snarls\<close> (the "arena
  of Snarl records indexed by a stable id" of the design notes), and \<open>None\<close> is the null
  pointer. \<^verbatim>\<open>add_snarl\<close> stores a copy and returns the pointer to it;
  \<^verbatim>\<open>add_chain\<close> records a chain of such pointers under a parent pointer (null for a
  root chain). \<open>children_of\<close> lists the snarls of the chains recorded under a parent.
\<close>

type_synonym Chain = "nat option list"

record SnarlManager =
  managed_snarls :: "Snarl list"
  managed_chains :: "(Chain \<times> nat option) list"

definition SnarlManager_empty :: SnarlManager where
  "SnarlManager_empty = \<lparr>managed_snarls = [], managed_chains = []\<rparr>"

definition add_snarl :: "Snarl \<Rightarrow> SnarlManager \<Rightarrow> nat \<times> SnarlManager" where
  "add_snarl s m = (length (managed_snarls m), m\<lparr>managed_snarls := managed_snarls m @ [s]\<rparr>)"

definition add_chain :: "Chain \<Rightarrow> nat option \<Rightarrow> SnarlManager \<Rightarrow> SnarlManager" where
  "add_chain c parent m = m\<lparr>managed_chains := managed_chains m @ [(c, parent)]\<rparr>"

definition deref :: "SnarlManager \<Rightarrow> nat option \<Rightarrow> Snarl option" where
  "deref m p = map_option (\<lambda>i. managed_snarls m ! i) p"

definition children_of :: "SnarlManager \<Rightarrow> nat \<Rightarrow> nat option list" where
  "children_of m i = concat (map fst (filter (\<lambda>cp. snd cp = Some i) (managed_chains m)))"

subsection \<open>What the snarl finder takes from outside\<close>

text \<open>
  The graph, the cactus construction, the \<^verbatim>\<open>NetGraph\<close> class and
  \<^verbatim>\<open>algorithms::is_directed_acyclic\<close> are not among the sources; they are parameters.
  \<^item> \<open>graph_size\<close> is \<^verbatim>\<open>graph.size()\<close>;
  \<^item> \<open>snarl_decomposition\<close> is the pair \<^verbatim>\<open>(topLevelChains, topLevelUnarySnarls)\<close>
    that the cactus decomposition of the graph yields;
  \<^item> \<open>follow_edges use_internal_connectivity start end child_chains here\<close> lists the handles
    that \<^verbatim>\<open>NetGraph(start, end, child_chains, &graph, use_internal_connectivity)\<close> passes
    to the callback of \<^verbatim>\<open>follow_edges(here, false, ...)\<close>, in order;
  \<^item> \<open>is_directed_acyclic start end child_chains\<close> is the verdict of
    \<^verbatim>\<open>algorithms::is_directed_acyclic\<close> on the flat net graph.
  The child chains reach both as the pointed-to snarls. A net graph handle is a node id
  with an orientation.
\<close>

type_synonym handle_t = "int \<times> bool"

record SnarlFinderEnv =
  graph_size :: nat
  snarl_decomposition :: "stSnarl list list \<times> stSnarl list"
  follow_edges :: "bool \<Rightarrow> Visit \<Rightarrow> Visit \<Rightarrow> Snarl option list list \<Rightarrow> handle_t \<Rightarrow> handle_t list"
  is_directed_acyclic :: "Visit \<Rightarrow> Visit \<Rightarrow> Snarl option list list \<Rightarrow> bool"

definition get_handle :: "int \<Rightarrow> bool \<Rightarrow> handle_t" where
  "get_handle i r = (i, r)"

definition flip :: "handle_t \<Rightarrow> handle_t" where
  "flip h = (fst h, \<not> snd h)"

subsection \<open>Connectivity searches\<close>

text \<open>
  The callback \<^verbatim>\<open>handle_edge\<close> queues a handle the first time it is seen. The two
  \<^verbatim>\<open>while (!queue.empty())\<close> loops follow; they end when the queue runs dry (or at
  their \<^verbatim>\<open>break\<close>), which an arbitrary \<open>follow_edges\<close> need not allow, so they are
  partial functions: \<open>None\<close> is a search that never returns.
\<close>

definition handle_edge ::
  "handle_t \<Rightarrow> handle_t list \<times> handle_t set \<Rightarrow> handle_t list \<times> handle_t set" where
  "handle_edge other qs =
     (case qs of (queue, queued) \<Rightarrow>
        if other \<notin> queued then (queue @ [other], insert other queued) else (queue, queued))"

partial_function (option) start_search ::
  "(handle_t \<Rightarrow> handle_t list) \<Rightarrow> handle_t \<Rightarrow> handle_t \<Rightarrow> handle_t list \<Rightarrow> handle_t set
     \<Rightarrow> bool \<Rightarrow> bool \<Rightarrow> (bool \<times> bool) option" where
  "start_search follow start_handle end_handle queue queued connected_start_end
       connected_start_start =
     (case queue of
        [] \<Rightarrow> Some (connected_start_end, connected_start_start)
      | here # rest \<Rightarrow>
          (let cse = (connected_start_end \<or> here = end_handle);
               css = (connected_start_start \<or> here = flip start_handle)
           in if cse \<and> css then Some (cse, css)
              else (case fold handle_edge (follow here) (rest, queued) of
                      (queue', queued') \<Rightarrow>
                        start_search follow start_handle end_handle queue' queued' cse css)))"

partial_function (option) end_search ::
  "(handle_t \<Rightarrow> handle_t list) \<Rightarrow> handle_t \<Rightarrow> handle_t list \<Rightarrow> handle_t set \<Rightarrow> bool option" where
  "end_search follow end_handle queue queued =
     (case queue of
        [] \<Rightarrow> Some False
      | here # rest \<Rightarrow>
          if here = end_handle then Some True
          else (case fold handle_edge (follow here) (rest, queued) of
                  (queue', queued') \<Rightarrow> end_search follow end_handle queue' queued'))"

definition connectivity ::
  "SnarlFinderEnv \<Rightarrow> Visit \<Rightarrow> Visit \<Rightarrow> Snarl option list list \<Rightarrow> Snarl \<Rightarrow> error + Snarl" where
  "connectivity E start_v end_v children site =
     (let follow = follow_edges E True start_v end_v children;
          start_handle = get_handle (node_id start_v) (backward start_v);
          end_handle = get_handle (node_id end_v) (backward end_v)
      in case start_search follow start_handle end_handle [start_handle] {start_handle}
                False False of
           None \<Rightarrow> Inl DoesNotReturn
         | Some (connected_start_end, connected_start_start) \<Rightarrow>
             (let end_inward = flip end_handle
              in case end_search follow end_handle [end_inward] {end_inward} of
                   None \<Rightarrow> Inl DoesNotReturn
                 | Some connected_end_end \<Rightarrow>
                     Inr (set_connectivity connected_start_start connected_end_end
                            connected_start_end site)))"

subsection \<open>Classification\<close>

text \<open>
  The loop over the child chains reads \<^verbatim>\<open>child->type()\<close> through each pointer, in
  order, and stops at the first child that is not an ultrabubble; reading through a null
  pointer on the way is a failure.
\<close>

fun chain_all_ultrabubble :: "SnarlManager \<Rightarrow> Chain \<Rightarrow> error + bool" where
  "chain_all_ultrabubble m [] = Inr True"
| "chain_all_ultrabubble m (None # rest) = Inl NullDereference"
| "chain_all_ultrabubble m (Some child # rest) =
     (if type (managed_snarls m ! child) \<noteq> ULTRABUBBLE then Inr False
      else chain_all_ultrabubble m rest)"

fun all_ultrabubble_children :: "SnarlManager \<Rightarrow> Chain list \<Rightarrow> error + bool" where
  "all_ultrabubble_children m [] = Inr True"
| "all_ultrabubble_children m (chain # rest) =
     (case chain_all_ultrabubble m chain of
        Inl e \<Rightarrow> Inl e
      | Inr False \<Rightarrow> Inr False
      | Inr True \<Rightarrow> all_ultrabubble_children m rest)"

definition classify ::
  "SnarlManager \<Rightarrow> Visit \<Rightarrow> Visit \<Rightarrow> Chain list \<Rightarrow> Snarl \<Rightarrow> error + Snarl" where
  "classify m start_v end_v child_chains site =
     (if node_id start_v = node_id end_v then Inr (set_type UNARY site)
      else if \<not> start_end_reachable site then Inr (set_type UNCLASSIFIED site)
      else if start_self_reachable site \<or> end_self_reachable site then
        Inr (set_type UNCLASSIFIED site)
      else (case all_ultrabubble_children m child_chains of
              Inl e \<Rightarrow> Inl e
            | Inr all_ultrabubble \<Rightarrow>
                if \<not> all_ultrabubble then Inr (set_type UNCLASSIFIED site)
                else if \<not> directed_acyclic_net_graph site then
                  Inr (set_type UNCLASSIFIED site)
                else Inr (set_type ULTRABUBBLE site)))"

subsection \<open>recursively\_emit\_snarls and find\_snarls\<close>

definition child_start :: "stSnarl \<Rightarrow> Visit" where
  "child_start child_snarl =
     Visit (node (edgeEnd1 child_snarl)) None (\<not> is_end (edgeEnd1 child_snarl))"

definition child_end :: "stSnarl \<Rightarrow> Visit" where
  "child_end child_snarl =
     Visit (node (edgeEnd2 child_snarl)) None (is_end (edgeEnd2 child_snarl))"

text \<open>The snarl being filled in: boundaries and parent are set only for a real snarl.\<close>

definition new_snarl :: "Visit \<Rightarrow> Visit \<Rightarrow> Visit \<Rightarrow> Visit \<Rightarrow> Snarl" where
  "new_snarl start_v end_v parent_start parent_end =
     (if node_id start_v \<noteq> 0 \<and> node_id end_v \<noteq> 0 then
        (let s = set_boundaries start_v end_v Snarl_default
         in if node_id parent_start \<noteq> 0 \<and> node_id parent_end \<noteq> 0
            then set_parent (set_boundaries parent_start parent_end Snarl_default) s
            else s)
      else Snarl_default)"

text \<open>
  The part of \<^verbatim>\<open>recursively_emit_snarls\<close> after the children have been emitted:
  connectivity, acyclicity, type, \<^verbatim>\<open>add_snarl\<close>, then \<^verbatim>\<open>add_chain\<close> for every
  child chain.
\<close>

definition finish_snarl ::
  "SnarlFinderEnv \<Rightarrow> Visit \<Rightarrow> Visit \<Rightarrow> Snarl \<Rightarrow> Chain list \<Rightarrow> SnarlManager
     \<Rightarrow> error + (nat option \<times> SnarlManager)" where
  "finish_snarl E start_v end_v site child_chains destination =
     (case (if node_id (start site) \<noteq> 0 \<or> node_id (end' site) \<noteq> 0 then
              (let children = map (map (deref destination)) child_chains
               in case connectivity E start_v end_v children site of
                    Inl e \<Rightarrow> Inl e
                  | Inr site1 \<Rightarrow>
                      (let site2 = set_directed_acyclic_net_graph
                                      (is_directed_acyclic E start_v end_v children) site1
                       in case classify destination start_v end_v child_chains site2 of
                            Inl e \<Rightarrow> Inl e
                          | Inr site3 \<Rightarrow>
                              (case add_snarl site3 destination of
                                 (managed, destination') \<Rightarrow> Inr (Some managed, destination'))))
            else Inr (None, destination)) of
        Inl e \<Rightarrow> Inl e
      | Inr (managed, destination') \<Rightarrow>
          Inr (managed, fold (\<lambda>chain d. add_chain chain managed d) child_chains destination'))"

function (sequential) recursively_emit_snarls ::
  "SnarlFinderEnv \<Rightarrow> Visit \<Rightarrow> Visit \<Rightarrow> Visit \<Rightarrow> Visit \<Rightarrow> stSnarl list list \<Rightarrow> stSnarl list
     \<Rightarrow> SnarlManager \<Rightarrow> error + (nat option \<times> SnarlManager)"
and emit_chains ::
  "SnarlFinderEnv \<Rightarrow> Visit \<Rightarrow> Visit \<Rightarrow> stSnarl list list \<Rightarrow> SnarlManager
     \<Rightarrow> error + (Chain list \<times> SnarlManager)"
and emit_chain ::
  "SnarlFinderEnv \<Rightarrow> Visit \<Rightarrow> Visit \<Rightarrow> stSnarl list \<Rightarrow> SnarlManager
     \<Rightarrow> error + (Chain \<times> SnarlManager)"
and emit_unary_snarls ::
  "SnarlFinderEnv \<Rightarrow> Visit \<Rightarrow> Visit \<Rightarrow> stSnarl list \<Rightarrow> SnarlManager
     \<Rightarrow> error + (Chain list \<times> SnarlManager)"
where
  "recursively_emit_snarls E start_v end_v parent_start parent_end chains_list unary_snarls_list
       destination =
     (case emit_chains E start_v end_v chains_list destination of
        Inl e \<Rightarrow> Inl e
      | Inr (chains1, destination1) \<Rightarrow>
          (case emit_unary_snarls E start_v end_v unary_snarls_list destination1 of
             Inl e \<Rightarrow> Inl e
           | Inr (chains2, destination2) \<Rightarrow>
               finish_snarl E start_v end_v (new_snarl start_v end_v parent_start parent_end)
                 (chains1 @ chains2) destination2))"
| "emit_chains E start_v end_v [] destination = Inr ([], destination)"
| "emit_chains E start_v end_v (cactus_chain # rest) destination =
     (case emit_chain E start_v end_v cactus_chain destination of
        Inl e \<Rightarrow> Inl e
      | Inr (chain, destination1) \<Rightarrow>
          (case emit_chains E start_v end_v rest destination1 of
             Inl e \<Rightarrow> Inl e
           | Inr (chains', destination2) \<Rightarrow> Inr (chain # chains', destination2)))"
| "emit_chain E start_v end_v [] destination = Inr ([], destination)"
| "emit_chain E start_v end_v (stSnarl e1 e2 ch un # rest) destination =
     (case recursively_emit_snarls E (child_start (stSnarl e1 e2 ch un))
             (child_end (stSnarl e1 e2 ch un)) start_v end_v ch un destination of
        Inl e \<Rightarrow> Inl e
      | Inr (managed, destination1) \<Rightarrow>
          (case emit_chain E start_v end_v rest destination1 of
             Inl e \<Rightarrow> Inl e
           | Inr (chain, destination2) \<Rightarrow> Inr (managed # chain, destination2)))"
| "emit_unary_snarls E start_v end_v [] destination = Inr ([], destination)"
| "emit_unary_snarls E start_v end_v (stSnarl e1 e2 ch un # rest) destination =
     (case recursively_emit_snarls E (child_start (stSnarl e1 e2 ch un))
             (child_end (stSnarl e1 e2 ch un)) start_v end_v ch un destination of
        Inl e \<Rightarrow> Inl e
      | Inr (managed, destination1) \<Rightarrow>
          (case emit_unary_snarls E start_v end_v rest destination1 of
             Inl e \<Rightarrow> Inl e
           | Inr (chains', destination2) \<Rightarrow> Inr ([managed] # chains', destination2)))"
  by pat_completeness auto
termination
  by (relation "measure (\<lambda>x. case x of
          Inl (Inl (E, sv, ev, ps, pe, cl, ul, d)) \<Rightarrow>
            size_list (size_list size) cl + size_list size ul + 1
        | Inl (Inr (E, sv, ev, cl, d)) \<Rightarrow> size_list (size_list size) cl
        | Inr (Inl (E, sv, ev, ul, d)) \<Rightarrow> size_list size ul
        | Inr (Inr (E, sv, ev, ul, d)) \<Rightarrow> size_list size ul)") auto

definition find_snarls :: "SnarlFinderEnv \<Rightarrow> error + SnarlManager" where
  "find_snarls G =
     (if graph_size G = 0 then Inr SnarlManager_empty
      else (case snarl_decomposition G of
              (cactus_chains_list, cactus_unary_snarls_list) \<Rightarrow>
                (case recursively_emit_snarls G Visit_default Visit_default Visit_default
                        Visit_default cactus_chains_list cactus_unary_snarls_list
                        SnarlManager_empty of
                   Inl e \<Rightarrow> Inl e
                 | Inr (root_snarl, snarl_manager) \<Rightarrow> Inr snarl_manager)))"

subsection \<open>The decision table of the specification\<close>

text \<open>
  The rules of the specification's table after the UNARY rule, read off a stored snarl and
  the children the manager records for it; the first matching rule wins.
\<close>

definition decision_table :: "SnarlManager \<Rightarrow> nat \<Rightarrow> SnarlType" where
  "decision_table m i =
     (let s = managed_snarls m ! i in
      if \<not> start_end_reachable s then UNCLASSIFIED
      else if start_self_reachable s \<or> end_self_reachable s then UNCLASSIFIED
      else if \<exists>j. Some j \<in> set (children_of m i) \<and> type (managed_snarls m ! j) \<noteq> ULTRABUBBLE
        then UNCLASSIFIED
      else if \<not> directed_acyclic_net_graph s then UNCLASSIFIED
      else ULTRABUBBLE)"

text \<open>
  Well-formedness of a manager: every pointer stored in a chain, and every parent pointer,
  points into the storage. A stored snarl is classified when its type is the one the table
  gives (UNARY when both boundaries are on one node).
\<close>

definition pointers_valid :: "SnarlManager \<Rightarrow> Chain list \<Rightarrow> bool" where
  "pointers_valid m cs = (\<forall>c \<in> set cs. \<forall>i. Some i \<in> set c \<longrightarrow> i < length (managed_snarls m))"

definition manager_wf :: "SnarlManager \<Rightarrow> bool" where
  "manager_wf m =
     (pointers_valid m (map fst (managed_chains m)) \<and>
      (\<forall>cp \<in> set (managed_chains m). \<forall>i. snd cp = Some i \<longrightarrow> i < length (managed_snarls m)))"

definition classified :: "SnarlManager \<Rightarrow> nat \<Rightarrow> bool" where
  "classified m i =
     (let s = managed_snarls m ! i in
      (node_id (start s) = node_id (end' s) \<longrightarrow> type s = UNARY) \<and>
      (node_id (start s) \<noteq> node_id (end' s) \<longrightarrow> type s = decision_table m i))"

definition manager_inv :: "SnarlManager \<Rightarrow> bool" where
  "manager_inv m = (manager_wf m \<and> (\<forall>i < length (managed_snarls m). classified m i))"

section \<open>Representative traversal finder\<close>

subsection \<open>What the traversal finder takes from outside\<close>

text \<open>
  Graph nodes and edges as the finder reads them: a node has an id and a sequence, an
  edge joins a side of one node to a side of another.
\<close>

record Node =
  id' :: int
  sequence :: string

record Edge =
  from' :: int
  to' :: int
  from_start :: bool
  to_end :: bool

text \<open>
  The \<^verbatim>\<open>PathIndex\<close>: \<open>by_id\<close> maps a node id to its offset and orientation on the
  indexed path; \<open>by_start\<close> lists the entries of the \<^verbatim>\<open>std::map\<close> from offsets to
  node visits in the order the map keeps them (ascending offset), each with the visit that
  \<^verbatim>\<open>to_visit()\<close> gives for it.
\<close>

record PathIndex =
  by_id :: "int \<rightharpoonup> nat \<times> bool"
  by_start :: "(nat \<times> Visit) list"

text \<open>
  The finder's configuration and collaborators. The graph, the support store, the snarl
  manager's queries, the path indexes and the helpers on visits are not among the sources;
  they are the fields of this record, named as the source names them:
  \<^item> \<open>get_node\<close>, \<open>get_edge\<close> (\<open>None\<close> is the null pointer): \<^verbatim>\<open>augmented.graph\<close>;
  \<^item> \<open>has_supports\<close>, \<open>node_support\<close>, \<open>edge_support\<close>: \<^verbatim>\<open>augmented.has_supports()\<close> and
    the two overloads of \<^verbatim>\<open>augmented.get_support\<close>;
  \<^item> a \<^verbatim>\<open>const Snarl*\<close> into the snarl manager is an address (a natural number);
    \<open>snarl_at\<close> reads the snarl at an address, \<open>manage\<close> is \<^verbatim>\<open>snarl_manager.manage\<close>,
    \<open>into_which_snarl\<close> and \<open>into_which_snarl_side\<close> are the two overloads of
    \<^verbatim>\<open>snarl_manager.into_which_snarl\<close> (by visit; by node id and orientation), with
    \<open>None\<close> the null pointer;
  \<^item> \<open>visits_left visit in_snarl\<close>: \<^verbatim>\<open>snarl_manager.visits_left(visit, graph, in_snarl)\<close>;
  \<^item> \<open>shallow_contents site\<close>: \<^verbatim>\<open>snarl_manager.shallow_contents(&site, graph, true)\<close>, the
    nodes and the edges each in the order the unordered set is iterated;
  \<^item> \<open>children_of_site site\<close>: \<^verbatim>\<open>snarl_manager.children_of(&site)\<close>;
  \<^item> \<open>get_index\<close>: the \<^verbatim>\<open>get_index\<close> callback (\<open>None\<close> is the null pointer);
    \<open>backbone_index site\<close>: the index \<^verbatim>\<open>PathIndex(find_backbone(site))\<close>, or \<open>None\<close>
    when \<^verbatim>\<open>find_backbone\<close> finds no traversal to build it from;
  \<^item> \<open>to_left_side\<close>, \<open>to_right_side\<close>: the node sides a visit is entered and left by;
  \<^item> \<open>paths_in_order\<close>, \<open>traversals_in_order\<close>: the order in which a
    \<^verbatim>\<open>std::set\<close> of length-and-path pairs, and one of visit sequences, is iterated. It is
    fixed by the comparison of visits, which is declared outside the sources.
\<close>

record 'a FinderEnv =
  max_depth :: nat
  max_width :: nat
  max_bubble_paths :: nat
  verbose :: bool
  get_node :: "int \<Rightarrow> Node"
  get_edge :: "NodeSide \<Rightarrow> NodeSide \<Rightarrow> Edge option"
  has_supports :: bool
  node_support :: "Node \<Rightarrow> 'a Support"
  edge_support :: "Edge \<Rightarrow> 'a Support"
  snarl_at :: "nat \<Rightarrow> Snarl"
  manage :: "Snarl \<Rightarrow> nat"
  into_which_snarl :: "Visit \<Rightarrow> nat option"
  into_which_snarl_side :: "int \<Rightarrow> bool \<Rightarrow> nat option"
  visits_left :: "Visit \<Rightarrow> nat option \<Rightarrow> Visit list"
  shallow_contents :: "Snarl \<Rightarrow> Node list \<times> Edge list"
  children_of_site :: "Snarl \<Rightarrow> nat list"
  get_index :: "Snarl \<Rightarrow> PathIndex option"
  backbone_index :: "Snarl \<Rightarrow> PathIndex option"
  to_left_side :: "Visit \<Rightarrow> NodeSide"
  to_right_side :: "Visit \<Rightarrow> NodeSide"
  paths_in_order :: "(nat \<times> Visit list) set \<Rightarrow> (nat \<times> Visit list) list"
  traversals_in_order :: "Visit list set \<Rightarrow> Visit list list"

text \<open>An iteration order lists a set when it gives each of its elements once.\<close>

definition lists_set :: "('x set \<Rightarrow> 'x list) \<Rightarrow> 'x set \<Rightarrow> bool" where
  "lists_set in_order S = (set (in_order S) = S \<and> distinct (in_order S))"

text \<open>
  Modelled from the spec: \<^verbatim>\<open>reverse(const Visit&)\<close>, which is declared outside the
  sources. Reversing a visit flips its orientation flag and keeps what it visits.
\<close>

definition reverse_visit :: "Visit \<Rightarrow> Visit" where
  "reverse_visit v = Visit (node_id v) (snarl_field v) (\<not> backward v)"

text \<open>
  Modelled from the spec: the two overloads of \<^verbatim>\<open>to_visit\<close> that the finder calls,
  declared outside the sources. A visit is to an oriented node (node id, orientation flag)
  or to a child snarl; the visit to a snarl carries the snarl's two boundary visits and is
  forward, as the visit that the backbone trace builds field by field for a child.
\<close>

definition to_visit :: "int \<Rightarrow> bool \<Rightarrow> Visit" where
  "to_visit node_id' is_backward = Visit node_id' None is_backward"

definition to_visit_snarl :: "Snarl \<Rightarrow> Visit" where
  "to_visit_snarl s = Visit 0 (Some (set_boundaries (start s) (end' s) Snarl_default)) False"

subsection \<open>bp\_length\<close>

text \<open>
  Sizes and counters (\<^verbatim>\<open>size_t\<close> in the source) are natural numbers here. The only
  subtraction on them, the decrement of \<open>stillToExtend\<close>, is shown below never to happen
  at 0.
\<close>

definition bp_length :: "('a, 'b) FinderEnv_scheme \<Rightarrow> Visit list \<Rightarrow> nat" where
  "bp_length E path =
     fold (\<lambda>visit len.
             if node_id visit \<noteq> 0
             then len + length (sequence (get_node E (node_id visit)))
             else len)
          path 0"

subsection \<open>bfs\_left\<close>

text \<open>
  The state of the search loop: the queue of partial paths, the counter kept beside it,
  the visits already queued, and the paths found.
\<close>

record bfs_state =
  toExtend :: "Visit list list"
  stillToExtend :: nat
  alreadyQueued :: "Visit set"
  toReturn :: "(nat \<times> Visit list) set"

text \<open>
  Does the front visit of a path anchor on the backbone? The three emitting branches of
  the loop, in order: a node on the index; a forward snarl visit whose start node is on it;
  a backward snarl visit whose end node is on it.
\<close>

definition anchored :: "PathIndex \<Rightarrow> Visit \<Rightarrow> bool" where
  "anchored index v =
     (if node_id v \<noteq> 0 \<and> node_id v \<in> dom (by_id index) then True
      else if node_id v = 0 \<and> \<not> backward v
              \<and> node_id (start (snarl v)) \<in> dom (by_id index) then True
      else if node_id v = 0 \<and> backward v
              \<and> node_id (end' (snarl v)) \<in> dom (by_id index) then True
      else False)"

text \<open>
  One turn of the loop over \<^verbatim>\<open>prevVisits\<close>. Each \<^verbatim>\<open>continue\<close> leaves the state as
  it is; the failed \<^verbatim>\<open>assert(edge != NULL)\<close> ends the search.
\<close>

definition consider_prev ::
  "('a::{plus,zero}) FinderEnv \<Rightarrow> bool \<Rightarrow> Visit list \<Rightarrow> Visit \<Rightarrow> Visit \<Rightarrow> bfs_state
     \<Rightarrow> error + bfs_state" where
  "consider_prev E stopIfVisited path front prevVisit st =
     (let rejected_for_support =
            (if node_id prevVisit \<noteq> 0 then
               (case get_edge E (to_right_side E prevVisit) (to_left_side E front) of
                  None \<Rightarrow> Inl (AssertionFailure ''edge != NULL'')
                | Some edge \<Rightarrow>
                    (let prevNode = get_node E (node_id prevVisit)
                     in Inr (has_supports E \<and>
                             (total_support (node_support E prevNode) = 0
                              \<or> total_support (edge_support E edge) = 0))))
             else
               (let prevNode = get_node E (node (to_left_side E prevVisit))
                in Inr (has_supports E \<and> total_support (node_support E prevNode) = 0)))
      in case rejected_for_support of
           Inl e \<Rightarrow> Inl e
         | Inr True \<Rightarrow> Inr st
         | Inr False \<Rightarrow>
             if stopIfVisited \<and> prevVisit \<in> alreadyQueued st then Inr st
             else if stillToExtend st \<ge> max_width E then Inr st
             else Inr (st\<lparr>toExtend := toExtend st @ [prevVisit # path],
                          stillToExtend := stillToExtend st + 1,
                          alreadyQueued := insert prevVisit (alreadyQueued st)\<rparr>))"

fun consider_all ::
  "('a::{plus,zero}) FinderEnv \<Rightarrow> bool \<Rightarrow> Visit list \<Rightarrow> Visit \<Rightarrow> Visit list \<Rightarrow> bfs_state
     \<Rightarrow> error + bfs_state" where
  "consider_all E stopIfVisited path front [] st = Inr st"
| "consider_all E stopIfVisited path front (prevVisit # rest) st =
     (case consider_prev E stopIfVisited path front prevVisit st of
        Inl e \<Rightarrow> Inl e
      | Inr st' \<Rightarrow> consider_all E stopIfVisited path front rest st')"

text \<open>
  One turn of the \<^verbatim>\<open>while (!toExtend.empty())\<close> loop on a non-empty queue: the front
  path is dequeued and the counter decremented, then the path is emitted, extended, or
  dropped. \<^verbatim>\<open>path.front()\<close> of an empty path has no defined result.
\<close>

definition bfs_step ::
  "('a::{plus,zero}) FinderEnv \<Rightarrow> PathIndex \<Rightarrow> bool \<Rightarrow> nat option \<Rightarrow> Visit list \<Rightarrow> bfs_state
     \<Rightarrow> error + bfs_state" where
  "bfs_step E index stopIfVisited in_snarl path st =
     (case path of
        [] \<Rightarrow> Inl IndexOutOfBounds
      | front # _ \<Rightarrow>
          if node_id front \<noteq> 0 \<and> node_id front \<in> dom (by_id index) then
            Inr (st\<lparr>toReturn := insert (bp_length E path, path) (toReturn st)\<rparr>)
          else if node_id front = 0 \<and> \<not> backward front
                  \<and> node_id (start (snarl front)) \<in> dom (by_id index) then
            Inr (st\<lparr>toReturn := insert (bp_length E path, path) (toReturn st)\<rparr>)
          else if node_id front = 0 \<and> backward front
                  \<and> node_id (end' (snarl front)) \<in> dom (by_id index) then
            Inr (st\<lparr>toReturn := insert (bp_length E path, path) (toReturn st)\<rparr>)
          else if length path \<le> max_depth E then
            consider_all E stopIfVisited path front (visits_left E front in_snarl) st
          else if length path \<ge> max_depth E then Inr st
          else Inl (AssertionFailure ''false''))"

definition dequeue :: "bfs_state \<Rightarrow> bfs_state" where
  "dequeue st = st\<lparr>toExtend := tl (toExtend st), stillToExtend := stillToExtend st - 1\<rparr>"

text \<open>
  What a queued path still costs: a path of more than \<open>max_depth\<close> visits is never
  extended, a shorter one only into longer ones.
\<close>

definition path_potential :: "('a, 'b) FinderEnv_scheme \<Rightarrow> Visit list \<Rightarrow> nat" where
  "path_potential E path = Suc (max_depth E) - length path"


lemma consider_prev_queue:
  assumes "consider_prev E stopIfVisited path front prevVisit st = Inr st'"
  shows "toExtend st' = toExtend st \<or> toExtend st' = toExtend st @ [prevVisit # path]"
  using assms
  by (auto simp: consider_prev_def Let_def split: if_splits option.splits sum.splits bool.splits)

lemma consider_all_queue:
  assumes "consider_all E stopIfVisited path front prevVisits st = Inr st'"
  shows "\<exists>news. toExtend st' = toExtend st @ news
               \<and> (\<forall>p \<in> set news. \<exists>v \<in> set prevVisits. p = v # path)"
  using assms
proof (induction prevVisits arbitrary: st)
  case Nil
  then show ?case by simp
next
  case (Cons v vs)
  from Cons.prems obtain st1 where
    s1: "consider_prev E stopIfVisited path front v st = Inr st1" and
    s2: "consider_all E stopIfVisited path front vs st1 = Inr st'"
    by (auto split: sum.splits)
  from Cons.IH[OF s2] obtain news where
    n: "toExtend st' = toExtend st1 @ news" "\<forall>p \<in> set news. \<exists>v \<in> set vs. p = v # path"
    by blast
  from consider_prev_queue[OF s1] show ?case
  proof
    assume "toExtend st1 = toExtend st"
    with n show ?thesis by auto
  next
    assume "toExtend st1 = toExtend st @ [v # path]"
    with n have "toExtend st' = toExtend st @ ((v # path) # news)" by simp
    moreover have "\<forall>p \<in> set ((v # path) # news). \<exists>w \<in> set (v # vs). p = w # path"
      using n(2) by auto
    ultimately show ?thesis by blast
  qed
qed

lemma bfs_step_queue:
  assumes "bfs_step E index stopIfVisited in_snarl path st = Inr st'"
  shows "\<exists>news. toExtend st' = toExtend st @ news
               \<and> (\<forall>p \<in> set news. length p = Suc (length path))
               \<and> (news \<noteq> [] \<longrightarrow> length path \<le> max_depth E)"
proof (cases path)
  case Nil
  with assms show ?thesis by (simp add: bfs_step_def)
next
  case (Cons front rest)
  show ?thesis
  proof (cases "bfs_step E index stopIfVisited in_snarl path st
                = consider_all E stopIfVisited path front (visits_left E front in_snarl) st
                \<and> length path \<le> max_depth E")
    case True
    with assms have "consider_all E stopIfVisited path front (visits_left E front in_snarl) st
                     = Inr st'" by simp
    from consider_all_queue[OF this] obtain news where
      n: "toExtend st' = toExtend st @ news"
         "\<forall>p \<in> set news. \<exists>v \<in> set (visits_left E front in_snarl). p = v # path"
      by blast
    from n(2) have "\<forall>p \<in> set news. length p = Suc (length path)" by fastforce
    with n(1) True show ?thesis by blast
  next
    case False
    with assms Cons have "toExtend st' = toExtend st"
      by (auto simp: bfs_step_def split: if_splits)
    then show ?thesis by simp
  qed
qed

text \<open>
  The loop. It ends: a turn takes one path off the queue and puts back only longer ones,
  and none longer than \<open>max_depth + 1\<close> visits is ever extended.
\<close>

function bfs_loop ::
  "('a::{plus,zero}) FinderEnv \<Rightarrow> PathIndex \<Rightarrow> bool \<Rightarrow> nat option \<Rightarrow> bfs_state
     \<Rightarrow> error + (nat \<times> Visit list) set" where
  "bfs_loop E index stopIfVisited in_snarl st =
     (case toExtend st of
        [] \<Rightarrow> Inr (toReturn st)
      | path # rest \<Rightarrow>
          (case bfs_step E index stopIfVisited in_snarl path (dequeue st) of
             Inl e \<Rightarrow> Inl e
           | Inr st' \<Rightarrow> bfs_loop E index stopIfVisited in_snarl st'))"
  by pat_completeness auto
termination
proof (relation "inv_image (mult less_than)
                   (\<lambda>(E, index, stopIfVisited, in_snarl, st).
                      mset (map (path_potential E) (toExtend st)))")
  show "wf (inv_image (mult less_than)
              (\<lambda>(E :: 'a FinderEnv, index :: PathIndex, stopIfVisited :: bool,
                  in_snarl :: nat option, st).
                 mset (map (path_potential E) (toExtend st))))"
    by (intro wf_inv_image wf_mult wf_less_than)
next
  fix E :: "'a FinderEnv" and index stopIfVisited in_snarl st path rest st'
  assume q: "toExtend st = path # rest"
    and s: "bfs_step E index stopIfVisited in_snarl path (dequeue st) = Inr st'"
  from bfs_step_queue[OF s] obtain news where
    n: "toExtend st' = rest @ news" "\<forall>p \<in> set news. length p = Suc (length path)"
       "news \<noteq> [] \<longrightarrow> length path \<le> max_depth E"
    using q by (auto simp: dequeue_def)
  have small: "\<forall>k \<in># mset (map (path_potential E) news).
                 \<exists>j \<in># {#path_potential E path#}. (k, j) \<in> less_than"
    using n(2,3) by (auto simp: path_potential_def)
  have "(mset (map (path_potential E) rest) + mset (map (path_potential E) news),
         mset (map (path_potential E) rest) + {#path_potential E path#}) \<in> mult less_than"
    by (rule one_step_implies_mult[OF _ small]) simp
  then show "((E, index, stopIfVisited, in_snarl, st'), (E, index, stopIfVisited, in_snarl, st))
             \<in> inv_image (mult less_than)
                  (\<lambda>(E, index, stopIfVisited, in_snarl, st).
                     mset (map (path_potential E) (toExtend st)))"
    using q n(1) by simp
qed

definition bfs_initial :: "Visit \<Rightarrow> bfs_state" where
  "bfs_initial visit =
     \<lparr>toExtend = [[visit]], stillToExtend = 1, alreadyQueued = {visit}, toReturn = {}\<rparr>"

definition bfs_left ::
  "('a::{plus,zero}) FinderEnv \<Rightarrow> Visit \<Rightarrow> PathIndex \<Rightarrow> bool \<Rightarrow> nat option
     \<Rightarrow> error + (nat \<times> Visit list) set" where
  "bfs_left E visit index stopIfVisited in_snarl =
     bfs_loop E index stopIfVisited in_snarl (bfs_initial visit)"

subsection \<open>bfs\_right\<close>

text \<open>
  The conversion loop takes every length-and-path pair of the left search, reverses the
  path, reverses every visit in it, and puts the pair into a new set.
\<close>

definition flip_path :: "nat \<times> Visit list \<Rightarrow> nat \<times> Visit list" where
  "flip_path lengthAndPath =
     (fst lengthAndPath, map reverse_visit (rev (snd lengthAndPath)))"

definition bfs_right ::
  "('a::{plus,zero}) FinderEnv \<Rightarrow> Visit \<Rightarrow> PathIndex \<Rightarrow> bool \<Rightarrow> nat option
     \<Rightarrow> error + (nat \<times> Visit list) set" where
  "bfs_right E visit index stopIfVisited in_snarl =
     (case bfs_left E (reverse_visit visit) index stopIfVisited in_snarl of
        Inl e \<Rightarrow> Inl e
      | Inr toConvert \<Rightarrow> Inr (flip_path ` toConvert))"

subsection \<open>The search, turn by turn\<close>

text \<open>
  \<open>bfs_after E index stopIfVisited in_snarl n st\<close> is the state at the head of the loop
  \<open>n\<close> turns after \<open>st\<close> (or the final state, if the queue runs dry earlier).
\<close>

fun bfs_after ::
  "('a::{plus,zero}) FinderEnv \<Rightarrow> PathIndex \<Rightarrow> bool \<Rightarrow> nat option \<Rightarrow> nat \<Rightarrow> bfs_state
     \<Rightarrow> error + bfs_state" where
  "bfs_after E index stopIfVisited in_snarl 0 st = Inr st"
| "bfs_after E index stopIfVisited in_snarl (Suc n) st =
     (case toExtend st of
        [] \<Rightarrow> Inr st
      | path # rest \<Rightarrow>
          (case bfs_step E index stopIfVisited in_snarl path (dequeue st) of
             Inl e \<Rightarrow> Inl e
           | Inr st' \<Rightarrow> bfs_after E index stopIfVisited in_snarl n st'))"

text \<open>
  A partial path of the search from \<open>visit\<close>: it ends in \<open>visit\<close>, has at most
  \<open>max_depth + 1\<close> visits (at most \<open>max_depth\<close> steps), and no visit behind its front is
  anchored on the backbone.
\<close>

definition partial_path ::
  "('a, 'b) FinderEnv_scheme \<Rightarrow> PathIndex \<Rightarrow> Visit \<Rightarrow> Visit list \<Rightarrow> bool" where
  "partial_path E index visit p =
     (p \<noteq> [] \<and> last p = visit \<and> length p \<le> Suc (max_depth E)
      \<and> list_all (\<lambda>v. \<not> anchored index v) (tl p))"

definition found_path ::
  "('a, 'b) FinderEnv_scheme \<Rightarrow> PathIndex \<Rightarrow> Visit \<Rightarrow> nat \<times> Visit list \<Rightarrow> bool" where
  "found_path E index visit lengthAndPath =
     (partial_path E index visit (snd lengthAndPath)
      \<and> anchored index (hd (snd lengthAndPath))
      \<and> fst lengthAndPath = bp_length E (snd lengthAndPath))"

definition bfs_inv ::
  "('a, 'b) FinderEnv_scheme \<Rightarrow> PathIndex \<Rightarrow> Visit \<Rightarrow> bfs_state \<Rightarrow> bool" where
  "bfs_inv E index visit st =
     (stillToExtend st = length (toExtend st)
      \<and> length (toExtend st) \<le> max 1 (max_width E)
      \<and> list_all (partial_path E index visit) (toExtend st)
      \<and> (\<forall>lp \<in> toReturn st. found_path E index visit lp))"

text \<open>
  What the search asserts of the graph: a node visit that \<^verbatim>\<open>visits_left\<close> lists for a
  visit is joined to it by an edge (\<^verbatim>\<open>assert(edge != NULL)\<close>).
\<close>

definition edges_real :: "('a, 'b) FinderEnv_scheme \<Rightarrow> nat option \<Rightarrow> bool" where
  "edges_real E in_snarl =
     (\<forall>front. \<forall>v \<in> set (visits_left E front in_snarl).
        node_id v \<noteq> 0 \<longrightarrow> get_edge E (to_right_side E v) (to_left_side E front) \<noteq> None)"

subsection \<open>min\_support\_in\_path\<close>

text \<open>
  The loop over each visit and its next visit carries the minimum found so far, and
  whether any support has been found yet.
\<close>

fun min_support_loop ::
  "('a::{ord,plus,zero}) FinderEnv \<Rightarrow> Visit \<Rightarrow> Visit list \<Rightarrow> bool \<times> 'a Support
     \<Rightarrow> bool \<times> 'a Support" where
  "min_support_loop E cur [] acc = acc"
| "min_support_loop E cur (next_visit # rest) acc =
     (let acc1 =
            (if node_id next_visit \<noteq> 0 then
               (let nextSupport = node_support E (get_node E (node_id next_visit))
                in if fst acc then (True, support_min (snd acc) nextSupport)
                   else (True, nextSupport))
             else acc);
          acc2 =
            (case get_edge E (to_right_side E cur) (to_left_side E next_visit) of
               None \<Rightarrow> acc1
             | Some edge \<Rightarrow>
                 (let edgeSupport = edge_support E edge
                  in if fst acc1 then (True, support_min (snd acc1) edgeSupport)
                     else (True, edgeSupport)))
      in min_support_loop E next_visit rest acc2)"

definition min_support_in_path ::
  "('a::{ord,plus,zero}) FinderEnv \<Rightarrow> Visit list \<Rightarrow> 'a Support" where
  "min_support_in_path E path =
     (case path of
        [] \<Rightarrow> Support_default
      | cur # rest \<Rightarrow>
          snd (min_support_loop E cur rest
                 (if node_id cur \<noteq> 0
                  then (True, node_support E (get_node E (node_id cur)))
                  else (False, Support_default))))"

subsection \<open>find\_bubble\<close>

text \<open>
  The seed is a node, an edge or a child snarl: the caller passes three pointers, and an
  edge wins over a node, a node over a snarl. The visits to search from are worked out
  first; an edge end that reads into a child snarl is replaced by the visit to that child
  (the same steps for either end, with the side function and the text of the assertion of
  that end).
\<close>

definition child_visit_for ::
  "('a, 'b) FinderEnv_scheme \<Rightarrow> (Visit \<Rightarrow> NodeSide) \<Rightarrow> string \<Rightarrow> nat \<Rightarrow> Visit
     \<Rightarrow> error + Visit" where
  "child_visit_for E side assertion managed_site visit =
     (case into_which_snarl E visit of
        None \<Rightarrow> Inr visit
      | Some child \<Rightarrow>
          if child \<noteq> managed_site
             \<and> into_which_snarl E (reverse_visit visit) \<noteq> Some managed_site
          then
            (let child_visit = to_visit_snarl (snarl_at E child);
                 child_visit' = (if side visit \<noteq> side child_visit
                                 then reverse_visit child_visit else child_visit)
             in if side visit = side child_visit' then Inr child_visit'
                else Inl (AssertionFailure assertion))
          else Inr visit)"

definition seed_visits ::
  "('a, 'b) FinderEnv_scheme \<Rightarrow> Node option \<Rightarrow> Edge option \<Rightarrow> nat option \<Rightarrow> Snarl
     \<Rightarrow> error + (Visit \<times> Visit)" where
  "seed_visits E node_seed edge_seed snarl_seed site =
     (let managed_site = manage E site
      in case edge_seed of
           Some edge \<Rightarrow>
             (let left_visit = to_visit (from' edge) (from_start edge);
                  right_visit = to_visit (to' edge) (to_end edge)
              in case child_visit_for E (to_left_side E)
                        ''to_left_side(right_visit) == to_left_side(right_child_visit)''
                        managed_site right_visit of
                   Inl e \<Rightarrow> Inl e
                 | Inr right_visit' \<Rightarrow>
                     (case child_visit_for E (to_right_side E)
                             ''to_right_side(left_visit) == to_right_side(left_child_visit)''
                             managed_site left_visit of
                        Inl e \<Rightarrow> Inl e
                      | Inr left_visit' \<Rightarrow> Inr (left_visit', right_visit')))
         | None \<Rightarrow>
             (case node_seed of
                Some n \<Rightarrow> Inr (to_visit (id' n) False, to_visit (id' n) False)
              | None \<Rightarrow>
                  (case snarl_seed of
                     None \<Rightarrow> Inl (AssertionFailure ''snarl != nullptr'')
                   | Some child \<Rightarrow>
                       Inr (to_visit_snarl (snarl_at E child),
                            to_visit_snarl (snarl_at E child)))))"

text \<open>
  \<^verbatim>\<open>testCombinations\<close>: the best bubble so far and the count of combinations tried.
  \<open>combine\<close> is the body of the inner loop for one left path and one right path, once
  both anchors have been looked up: it yields the new state and whether the
  \<^verbatim>\<open>return\<close> at \<open>max_bubble_paths\<close> was taken. \<^verbatim>\<open>index.by_id.at\<close> throws on a node
  that is not indexed.
\<close>

record 'a combinations =
  bestBubblePath :: "'a Support \<times> Visit list"
  bubbleCount :: nat

definition combine ::
  "('a::{ord,plus,zero}) FinderEnv \<Rightarrow> bool \<Rightarrow> Visit list \<Rightarrow> nat \<times> bool \<Rightarrow> Visit list
     \<Rightarrow> nat \<times> bool \<Rightarrow> 'a combinations \<Rightarrow> 'a combinations \<times> bool" where
  "combine E edge_based leftPath leftRefPos rightPath rightRefPos st =
     (let leftRelativeOrientation =
            (is_end (to_left_side E (hd leftPath)) \<noteq> snd leftRefPos);
          rightOrientation = (\<not> is_end (to_right_side E (last rightPath)));
          rightRelativeOrientation = (rightOrientation \<noteq> snd rightRefPos);
          minRightSupport = min_support_in_path E rightPath
      in if leftRelativeOrientation = rightRelativeOrientation
            \<and> ((\<not> leftRelativeOrientation \<and> fst leftRefPos < fst rightRefPos)
               \<or> (leftRelativeOrientation \<and> fst leftRefPos > fst rightRefPos))
         then
           (let minFullSupport =
                  support_min (min_support_in_path E leftPath) minRightSupport;
                appended = (if edge_based then rightPath else tl rightPath);
                fullPath = leftPath @ appended;
                leftPathNodes =
                  set (map node_id (filter (\<lambda>v. node_id v \<noteq> 0) leftPath));
                leftPathSnarls =
                  set (map snarl (filter (\<lambda>v. node_id v = 0) leftPath));
                overlap = (\<exists>v \<in> set appended.
                             if node_id v \<noteq> 0 then node_id v \<in> leftPathNodes
                             else snarl v \<in> leftPathSnarls)
            in if overlap then (st, False)
               else
                 (let fullPath' = (if leftRelativeOrientation
                                   then map reverse_visit (rev fullPath)
                                   else fullPath);
                      best = bestBubblePath st;
                      st1 = (if total_support minFullSupport > total_support (fst best)
                                \<or> (total_support minFullSupport = total_support (fst best)
                                    \<and> snd best = [])
                             then st\<lparr>bestBubblePath := (minFullSupport, fullPath')\<rparr>
                             else st);
                      st2 = st1\<lparr>bubbleCount := bubbleCount st1 + 1\<rparr>
                  in (st2, bubbleCount st2 \<ge> max_bubble_paths E)))
         else (st, False))"

definition try_right_path ::
  "('a::{ord,plus,zero}) FinderEnv \<Rightarrow> PathIndex \<Rightarrow> bool \<Rightarrow> Visit list \<Rightarrow> nat \<times> bool
     \<Rightarrow> Visit list \<Rightarrow> 'a combinations \<Rightarrow> error + ('a combinations \<times> bool)" where
  "try_right_path E index edge_based leftPath leftRefPos rightPath st =
     (if rightPath = [] then Inl IndexOutOfBounds
      else
        (case by_id index (node (to_right_side E (last rightPath))) of
           None \<Rightarrow> Inl OutOfRange
         | Some rightRefPos \<Rightarrow>
             Inr (combine E edge_based leftPath leftRefPos rightPath rightRefPos st)))"

fun test_right_paths ::
  "('a::{ord,plus,zero}) FinderEnv \<Rightarrow> PathIndex \<Rightarrow> bool \<Rightarrow> Visit list \<Rightarrow> nat \<times> bool
     \<Rightarrow> Visit list list \<Rightarrow> 'a combinations \<Rightarrow> error + ('a combinations \<times> bool)" where
  "test_right_paths E index edge_based leftPath leftRefPos [] st = Inr (st, False)"
| "test_right_paths E index edge_based leftPath leftRefPos (rightPath # rest) st =
     (case try_right_path E index edge_based leftPath leftRefPos rightPath st of
        Inl e \<Rightarrow> Inl e
      | Inr (st', True) \<Rightarrow> Inr (st', True)
      | Inr (st', False) \<Rightarrow>
          test_right_paths E index edge_based leftPath leftRefPos rest st')"

fun test_left_paths ::
  "('a::{ord,plus,zero}) FinderEnv \<Rightarrow> PathIndex \<Rightarrow> bool \<Rightarrow> Visit list list \<Rightarrow> Visit list list
     \<Rightarrow> 'a combinations \<Rightarrow> error + 'a combinations" where
  "test_left_paths E index edge_based [] rightList st = Inr st"
| "test_left_paths E index edge_based (leftPath # rest) rightList st =
     (if leftPath = [] then Inl IndexOutOfBounds
      else
        (case by_id index (node (to_left_side E (hd leftPath))) of
           None \<Rightarrow> Inl OutOfRange
         | Some leftRefPos \<Rightarrow>
             (case test_right_paths E index edge_based leftPath leftRefPos rightList st of
                Inl e \<Rightarrow> Inl e
              | Inr (st', True) \<Rightarrow> Inr st'
              | Inr (st', False) \<Rightarrow> test_left_paths E index edge_based rest rightList st')))"

definition testCombinations ::
  "('a::{ord,plus,zero}) FinderEnv \<Rightarrow> PathIndex \<Rightarrow> bool \<Rightarrow> Visit list list \<Rightarrow> Visit list list
     \<Rightarrow> error + ('a Support \<times> Visit list)" where
  "testCombinations E index edge_based leftList rightList =
     (case test_left_paths E index edge_based leftList rightList
             \<lparr>bestBubblePath = (Support_default, []), bubbleCount = 0\<rparr> of
        Inl e \<Rightarrow> Inl e
      | Inr st \<Rightarrow> Inr (bestBubblePath st))"

definition find_bubble ::
  "('a::{ord,plus,zero}) FinderEnv \<Rightarrow> Node option \<Rightarrow> Edge option \<Rightarrow> nat option \<Rightarrow> PathIndex
     \<Rightarrow> Snarl \<Rightarrow> error + ('a Support \<times> Visit list)" where
  "find_bubble E node_seed edge_seed snarl_seed index site =
     (case seed_visits E node_seed edge_seed snarl_seed site of
        Inl e \<Rightarrow> Inl e
      | Inr (left_visit, right_visit) \<Rightarrow>
          (case bfs_left E left_visit index False (Some (manage E site)) of
             Inl e \<Rightarrow> Inl e
           | Inr leftPaths \<Rightarrow>
               (case bfs_right E right_visit index False (Some (manage E site)) of
                  Inl e \<Rightarrow> Inl e
                | Inr rightPaths \<Rightarrow>
                    testCombinations E index (edge_seed \<noteq> None)
                      (map snd (paths_in_order E leftPaths))
                      (map snd (paths_in_order E rightPaths)))))"

subsection \<open>find\_traversals: choosing the index\<close>

text \<open>
  The primary path index is used when there is one and both boundary nodes of the site are
  on it; otherwise an index is built for a backbone found through the site, and
  \<^verbatim>\<open>find_backbone\<close> asserts that it found a traversal to take as the backbone.
\<close>

definition find_backbone_index :: "('a, 'b) FinderEnv_scheme \<Rightarrow> Snarl \<Rightarrow> error + PathIndex" where
  "find_backbone_index E site =
     (case backbone_index E site of
        None \<Rightarrow> Inl (AssertionFailure ''!traversals.empty()'')
      | Some index \<Rightarrow> Inr index)"

definition select_index :: "('a, 'b) FinderEnv_scheme \<Rightarrow> Snarl \<Rightarrow> error + PathIndex" where
  "select_index E site =
     (case get_index E site of
        None \<Rightarrow> find_backbone_index E site
      | Some primary_path_index \<Rightarrow>
          if node_id (start site) \<notin> dom (by_id primary_path_index)
             \<or> node_id (end' site) \<notin> dom (by_id primary_path_index)
          then find_backbone_index E site
          else Inr primary_path_index)"

subsection \<open>find\_traversals: tracing the reference path\<close>

text \<open>
  \<^verbatim>\<open>by_start.lower_bound(k)\<close>: the first entry, in key order, whose key is not below \<open>k\<close>;
  \<open>None\<close> is \<^verbatim>\<open>by_start.end()\<close>.
\<close>

definition lower_bound :: "(nat \<times> Visit) list \<Rightarrow> nat \<Rightarrow> (nat \<times> Visit) option" where
  "lower_bound entries k = find (\<lambda>entry. k \<le> fst entry) entries"

text \<open>
  The next place to look is the \<^verbatim>\<open>size_t\<close> sum
  \<^verbatim>\<open>found->first + sequence().size()\<close>, which wraps; \<^verbatim>\<open>size_t\<close> is taken as 64 bits
  wide. It is stored in the \<^verbatim>\<open>int64_t\<close> \<^verbatim>\<open>ref_node_start\<close> and read back as a
  \<^verbatim>\<open>size_t\<close> wherever it is used (the comparison with \<^verbatim>\<open>primary_max\<close>, the argument of
  \<^verbatim>\<open>lower_bound\<close>), so its value there is the wrapped sum.
\<close>

definition size_t_add :: "nat \<Rightarrow> nat \<Rightarrow> nat" where
  "size_t_add a b = (a + b) mod 2 ^ 64"

record trace_state =
  ref_node_start :: nat
  ref_path_for_site :: "Visit list"
  nodes_left :: "Node list"

text \<open>
  The \<^verbatim>\<open>do ... while (!contents.first.count(here))\<close> loop that skips to the far end of a
  child snarl. It yields the last \<open>ref_node_start\<close>, and the entry found there with its
  node. A node with an empty sequence, or a sum that wraps, can keep it from advancing, so
  it is a partial function.
\<close>

partial_function (option) skip_child ::
  "('a, 'b) FinderEnv_scheme \<Rightarrow> PathIndex \<Rightarrow> Node list \<Rightarrow> nat \<Rightarrow> Node
     \<Rightarrow> (error + (nat \<times> nat \<times> Visit \<times> Node)) option" where
  "skip_child E index contents_nodes found_first here =
     (let ref_node_start' = size_t_add found_first (length (sequence here))
      in case lower_bound (by_start index) ref_node_start' of
           None \<Rightarrow> Some (Inl (AssertionFailure ''found != index.by_start.end()''))
         | Some found \<Rightarrow>
             (let found_visit = snd found;
                  here' = get_node E (node_id found_visit)
              in if here' \<notin> set contents_nodes
                 then skip_child E index contents_nodes (fst found) here'
                 else Some (Inr (ref_node_start', fst found, found_visit, here'))))"

text \<open>
  The branch of the trace that enters a child snarl: the visit to the child is recorded,
  the trace skips to the child's far end, and steps past it unless another child starts
  right there.
\<close>

definition enter_child ::
  "('a, 'b) FinderEnv_scheme \<Rightarrow> PathIndex \<Rightarrow> Node list \<Rightarrow> trace_state \<Rightarrow> nat \<Rightarrow> Visit \<Rightarrow> nat
     \<Rightarrow> (error + trace_state) option" where
  "enter_child E index contents_nodes st found_first found_visit child =
     (case (if found_visit = start (snarl_at E child) then Inr False
            else if found_visit = reverse_visit (end' (snarl_at E child)) then Inr True
            else Inl (AssertionFailure ''found_visit == reverse(child->end())'')) of
        Inl e \<Rightarrow> Some (Inl e)
      | Inr is_backward \<Rightarrow>
          (let child_visit =
                 Visit 0 (Some (set_boundaries (start (snarl_at E child))
                                  (end' (snarl_at E child)) Snarl_default)) is_backward;
               visited_node = get_node E (node_id found_visit)
           in case skip_child E index contents_nodes found_first visited_node of
                None \<Rightarrow> None
              | Some (Inl e) \<Rightarrow> Some (Inl e)
              | Some (Inr (ref_node_start1, found_first1, found_visit1, here1)) \<Rightarrow>
                  (case (if into_which_snarl E (reverse_visit found_visit1) \<noteq> None
                            \<and> into_which_snarl E found_visit1 = None
                         then
                           (let ref_node_start2 = size_t_add found_first1 (length (sequence here1))
                            in case lower_bound (by_start index) ref_node_start2 of
                                 None \<Rightarrow>
                                   Inl (AssertionFailure ''found != index.by_start.end()'')
                               | Some found2 \<Rightarrow>
                                   Inr (ref_node_start2, get_node E (node_id (snd found2))))
                         else Inr (ref_node_start1, here1)) of
                     Inl e \<Rightarrow> Some (Inl e)
                   | Inr (ref_node_start3, here3) \<Rightarrow>
                       if here3 \<in> set contents_nodes
                       then Some (Inr (st\<lparr>ref_node_start := ref_node_start3,
                                          ref_path_for_site :=
                                            ref_path_for_site st @ [child_visit]\<rparr>))
                       else Some (Inl (AssertionFailure ''contents.first.count(here)'')))))"

text \<open>
  The \<^verbatim>\<open>while (ref_node_start <= primary_max)\<close> loop. It need not end either (a node
  with an empty sequence is found again and again, or the sum wraps), so it is a partial
  function.
\<close>

partial_function (option) trace_loop ::
  "('a, 'b) FinderEnv_scheme \<Rightarrow> PathIndex \<Rightarrow> Snarl \<Rightarrow> Node list \<Rightarrow> nat \<Rightarrow> trace_state
     \<Rightarrow> (error + trace_state) option" where
  "trace_loop E index site contents_nodes primary_max st =
     (if ref_node_start st \<le> primary_max then
        (case lower_bound (by_start index) (ref_node_start st) of
           None \<Rightarrow>
             Some (Inl (RuntimeError ''No backbone node found when tracing through site!''))
         | Some found \<Rightarrow>
             if fst found > primary_max then Some (Inr st)
             else
               (let found_visit = snd found;
                    visited_node = get_node E (node_id found_visit)
                in case into_which_snarl E found_visit of
                     None \<Rightarrow>
                       trace_loop E index site contents_nodes primary_max
                         (st\<lparr>nodes_left := removeAll visited_node (nodes_left st),
                             ref_path_for_site := ref_path_for_site st @ [found_visit],
                             ref_node_start :=
                               size_t_add (fst found) (length (sequence visited_node))\<rparr>)
                   | Some child \<Rightarrow>
                       if child \<noteq> manage E site
                          \<and> into_which_snarl E (reverse_visit found_visit)
                              \<noteq> Some (manage E site)
                       then
                         (case enter_child E index contents_nodes st (fst found) found_visit
                                 child of
                            None \<Rightarrow> None
                          | Some (Inl e) \<Rightarrow> Some (Inl e)
                          | Some (Inr st') \<Rightarrow>
                              trace_loop E index site contents_nodes primary_max st')
                       else
                         trace_loop E index site contents_nodes primary_max
                           (st\<lparr>nodes_left := removeAll visited_node (nodes_left st),
                               ref_path_for_site := ref_path_for_site st @ [found_visit],
                               ref_node_start :=
                                 size_t_add (fst found) (length (sequence visited_node))\<rparr>)))
      else Some (Inr st))"

text \<open>
  After the trace, no node of the site that the trace did not visit (child boundary nodes
  apart) may be on the backbone.
\<close>

definition extra_ref_node :: "('a, 'b) FinderEnv_scheme \<Rightarrow> PathIndex \<Rightarrow> Node list \<Rightarrow> bool" where
  "extra_ref_node E index nodes =
     (\<exists>n \<in> set nodes.
        \<not> (into_which_snarl_side E (id' n) True \<noteq> None
           \<or> into_which_snarl_side E (id' n) False \<noteq> None)
        \<and> id' n \<in> dom (by_id index))"

definition trace_ref_path ::
  "('a, 'b) FinderEnv_scheme \<Rightarrow> PathIndex \<Rightarrow> Snarl \<Rightarrow> Node list \<Rightarrow> nat \<Rightarrow> nat
     \<Rightarrow> error + Visit list" where
  "trace_ref_path E index site contents_nodes site_start site_end =
     (case trace_loop E index site contents_nodes (max site_start site_end)
             \<lparr>ref_node_start = min site_start site_end, ref_path_for_site = [],
              nodes_left = contents_nodes\<rparr> of
        None \<Rightarrow> Inl DoesNotReturn
      | Some (Inl e) \<Rightarrow> Inl e
      | Some (Inr st) \<Rightarrow>
          if extra_ref_node E index (nodes_left st)
          then Inl (RuntimeError ''Extra ref node found'')
          else Inr (ref_path_for_site st))"

subsection \<open>find\_traversals: splicing a bubble into the reference path\<close>

definition frontier_visit :: "Visit \<Rightarrow> bool \<Rightarrow> Visit" where
  "frontier_visit visit left_side =
     (if node_id visit \<noteq> 0 then visit
      else if backward visit \<and> \<not> left_side then reverse_visit (start (snarl visit))
      else if \<not> backward visit \<and> \<not> left_side then end' (snarl visit)
      else if backward visit then reverse_visit (end' (snarl visit))
      else start (snarl visit))"

text \<open>
  A scan that advances an index while a condition fails stops at the first element that
  meets it: \<open>first_match\<close> gives that position in the scanned list, or \<open>None\<close> when the
  scan runs off its end.
\<close>

fun first_match :: "('x \<Rightarrow> bool) \<Rightarrow> 'x list \<Rightarrow> nat option" where
  "first_match P [] = None"
| "first_match P (x # xs) = (if P x then Some 0 else map_option Suc (first_match P xs))"

text \<open>The condition that ends the first loop, on the reference visit and the bubble's first.\<close>

definition left_anchor_matches :: "Visit \<Rightarrow> Visit \<Rightarrow> bool" where
  "left_anchor_matches ref_visit bubble_first =
     (\<not> (frontier_visit ref_visit False \<noteq> frontier_visit bubble_first True
         \<and> \<not> (node_id bubble_first = 0
              \<and> frontier_visit ref_visit False = frontier_visit bubble_first False)))"

text \<open>The condition of the \<^verbatim>\<open>break\<close> in the scan for the exit, on the bubble's last visit.\<close>

definition right_anchor_matches :: "Visit \<Rightarrow> Visit \<Rightarrow> bool" where
  "right_anchor_matches ref_visit bubble_last =
     (frontier_visit ref_visit True = frontier_visit bubble_last False
      \<or> (node_id bubble_last = 0
         \<and> frontier_visit ref_visit False = frontier_visit bubble_last False))"

text \<open>
  Finding where to leave the bubble: a forward scan from \<open>ref_path_index\<close>; when it runs
  out of reference path, one more scan from index 0 (with the narrower condition the source
  uses there); when that runs out too, the runtime error.
\<close>

definition find_right_anchor :: "Snarl \<Rightarrow> Visit list \<Rightarrow> Visit \<Rightarrow> nat \<Rightarrow> error + nat" where
  "find_right_anchor site ref_path bubble_last ref_path_index =
     (case first_match (\<lambda>ref_visit. right_anchor_matches ref_visit bubble_last)
             (drop ref_path_index ref_path) of
        Some k \<Rightarrow> Inr (ref_path_index + k)
      | None \<Rightarrow>
          (case first_match
                  (\<lambda>ref_visit. frontier_visit ref_visit True = frontier_visit bubble_last False)
                  ref_path of
             Some j \<Rightarrow> Inr j
           | None \<Rightarrow> Inl (CouldNotFind bubble_last (start site) (end' site))))"

text \<open>What follows once the exit is found at \<open>ref_path_index\<close>.\<close>

definition splice_after :: "Visit list \<Rightarrow> Visit list \<Rightarrow> nat \<Rightarrow> error + Visit list" where
  "splice_after ref_path extended_path ref_path_index =
     (let ref_visit = ref_path ! ref_path_index
      in if node_id ref_visit = 0 then
           (if extended_path = [] then Inl IndexOutOfBounds
            else
              (let kept =
                     (if node_id (last extended_path) \<noteq> 0
                         \<or> (start (snarl ref_visit) = start (snarl (last extended_path))
                             \<and> end' (snarl ref_visit) = end' (snarl (last extended_path)))
                      then butlast extended_path else extended_path)
               in Inr (kept @ [ref_visit] @ drop (Suc ref_path_index) ref_path)))
         else Inr (extended_path @ drop (Suc ref_path_index) ref_path))"

text \<open>What precedes: the reference path up to the bubble's entry, then the bubble.\<close>

definition splice_before :: "Visit list \<Rightarrow> Visit list \<Rightarrow> error + (Visit list \<times> nat)" where
  "splice_before ref_path path =
     (if path = [] then Inl IndexOutOfBounds
      else
        (case first_match (\<lambda>ref_visit. left_anchor_matches ref_visit (hd path)) ref_path of
           None \<Rightarrow> Inl IndexOutOfBounds
         | Some ref_path_index \<Rightarrow>
             (let ref_visit = ref_path ! ref_path_index;
                  extended_path = take ref_path_index ref_path
              in if node_id ref_visit = 0 then
                   Inr (extended_path @ [ref_visit]
                          @ (if node_id (hd path) \<noteq> 0
                                \<or> (start (snarl (hd path)) = start (snarl ref_visit)
                                    \<and> end' (snarl (hd path)) = end' (snarl ref_visit))
                             then tl path else path),
                        ref_path_index)
                 else Inr (extended_path @ path, ref_path_index))))"

definition extend_into_allele ::
  "('a, 'b) FinderEnv_scheme \<Rightarrow> Snarl \<Rightarrow> Node list \<Rightarrow> Visit list \<Rightarrow> Visit list
     \<Rightarrow> error + Visit list" where
  "extend_into_allele E site contents_nodes ref_path path =
     (if \<exists>visit \<in> set path.
           node_id visit \<noteq> 0 \<and> get_node E (node_id visit) \<notin> set contents_nodes
      then Inl (AssertionFailure
             ''contents.first.count(augmented.graph.get_node(visit.node_id()))'')
      else
        (case splice_before ref_path path of
           Inl e \<Rightarrow> Inl e
         | Inr (extended_path, ref_path_index) \<Rightarrow>
             (case find_right_anchor site ref_path (last path) ref_path_index of
                Inl e \<Rightarrow> Inl e
              | Inr ref_path_index' \<Rightarrow> splice_after ref_path extended_path ref_path_index')))"

subsection \<open>find\_traversals: the seeds\<close>

text \<open>
  What one seed adds to \<^verbatim>\<open>site_traversal_set\<close>: nothing when its bubble is empty, the
  spliced path otherwise. A failure of the bubble search or of the splicing ends the call.
\<close>

definition add_bubble ::
  "('a::{ord,plus,zero}) FinderEnv \<Rightarrow> PathIndex \<Rightarrow> Snarl \<Rightarrow> Node list \<Rightarrow> Visit list
     \<Rightarrow> error + ('a Support \<times> Visit list) \<Rightarrow> Visit list set \<Rightarrow> error + Visit list set" where
  "add_bubble E index site contents_nodes ref_path sup_path site_traversal_set =
     (case sup_path of
        Inl e \<Rightarrow> Inl e
      | Inr (support, path) \<Rightarrow>
          if path = [] then Inr site_traversal_set
          else
            (case extend_into_allele E site contents_nodes ref_path path of
               Inl e \<Rightarrow> Inl e
             | Inr extended_path \<Rightarrow> Inr (insert extended_path site_traversal_set)))"

fun node_seeds ::
  "('a::{ord,plus,zero}) FinderEnv \<Rightarrow> PathIndex \<Rightarrow> Snarl \<Rightarrow> Node list \<Rightarrow> Visit list
     \<Rightarrow> Node list \<Rightarrow> Visit list set \<Rightarrow> error + Visit list set" where
  "node_seeds E index site contents_nodes ref_path [] S = Inr S"
| "node_seeds E index site contents_nodes ref_path (n # rest) S =
     (if into_which_snarl_side E (id' n) True \<noteq> None
         \<or> into_which_snarl_side E (id' n) False \<noteq> None
      then node_seeds E index site contents_nodes ref_path rest S
      else if has_supports E \<and> total_support (node_support E n) = 0
      then node_seeds E index site contents_nodes ref_path rest S
      else if id' n \<in> dom (by_id index)
      then node_seeds E index site contents_nodes ref_path rest S
      else
        (case add_bubble E index site contents_nodes ref_path
                (find_bubble E (Some n) None None index site) S of
           Inl e \<Rightarrow> Inl e
         | Inr S' \<Rightarrow> node_seeds E index site contents_nodes ref_path rest S'))"

fun edge_seeds ::
  "('a::{ord,plus,zero}) FinderEnv \<Rightarrow> PathIndex \<Rightarrow> Snarl \<Rightarrow> Node list \<Rightarrow> Visit list
     \<Rightarrow> Edge list \<Rightarrow> Visit list set \<Rightarrow> error + Visit list set" where
  "edge_seeds E index site contents_nodes ref_path [] S = Inr S"
| "edge_seeds E index site contents_nodes ref_path (edge # rest) S =
     (if has_supports E \<and> total_support (edge_support E edge) = 0
      then edge_seeds E index site contents_nodes ref_path rest S
      else if from' edge \<notin> dom (by_id index) \<or> to' edge \<notin> dom (by_id index)
      then edge_seeds E index site contents_nodes ref_path rest S
      else
        (case add_bubble E index site contents_nodes ref_path
                (find_bubble E None (Some edge) None index site) S of
           Inl e \<Rightarrow> Inl e
         | Inr S' \<Rightarrow> edge_seeds E index site contents_nodes ref_path rest S'))"

fun child_seeds ::
  "('a::{ord,plus,zero}) FinderEnv \<Rightarrow> PathIndex \<Rightarrow> Snarl \<Rightarrow> Node list \<Rightarrow> Visit list
     \<Rightarrow> nat list \<Rightarrow> Visit list set \<Rightarrow> error + Visit list set" where
  "child_seeds E index site contents_nodes ref_path [] S = Inr S"
| "child_seeds E index site contents_nodes ref_path (child # rest) S =
     (case add_bubble E index site contents_nodes ref_path
             (find_bubble E None None (Some child) index site) S of
        Inl e \<Rightarrow> Inl e
      | Inr S' \<Rightarrow> child_seeds E index site contents_nodes ref_path rest S')"

definition site_traversals ::
  "('a::{ord,plus,zero}) FinderEnv \<Rightarrow> PathIndex \<Rightarrow> Snarl \<Rightarrow> Visit list
     \<Rightarrow> error + Visit list set" where
  "site_traversals E index site ref_path =
     (let contents = shallow_contents E site
      in case node_seeds E index site (fst contents) ref_path (fst contents) {} of
           Inl e \<Rightarrow> Inl e
         | Inr S1 \<Rightarrow>
             (case edge_seeds E index site (fst contents) ref_path (snd contents) S1 of
                Inl e \<Rightarrow> Inl e
              | Inr S2 \<Rightarrow>
                  child_seeds E index site (fst contents) ref_path (children_of_site E site)
                    S2))"

subsection \<open>find\_traversals: emission\<close>

text \<open>
  A \<^verbatim>\<open>SnarlTraversal\<close> is its sequence of visits. When the backbone runs against the
  site (\<open>site_start > site_end\<close>) the visits are emitted last to first, each reversed.
\<close>

definition emit_traversal :: "nat \<Rightarrow> nat \<Rightarrow> Visit list \<Rightarrow> Visit list" where
  "emit_traversal site_start site_end visits =
     (if site_start > site_end then map reverse_visit (rev visits) else visits)"

definition unique_traversals ::
  "('a, 'b) FinderEnv_scheme \<Rightarrow> nat \<Rightarrow> nat \<Rightarrow> Visit list \<Rightarrow> Visit list set \<Rightarrow> Visit list list" where
  "unique_traversals E site_start site_end ref_path site_traversal_set =
     emit_traversal site_start site_end ref_path
     # map (emit_traversal site_start site_end)
         (filter (\<lambda>visits. visits \<noteq> ref_path) (traversals_in_order E site_traversal_set))"

text \<open>
  The position of a boundary node on the chosen index, \<^verbatim>\<open>index.by_id.at(id).first\<close>.
\<close>

definition site_position :: "PathIndex \<Rightarrow> Visit \<Rightarrow> error + nat" where
  "site_position index boundary =
     (case by_id index (node_id boundary) of
        None \<Rightarrow> Inl OutOfRange
      | Some entry \<Rightarrow> Inr (fst entry))"

definition find_traversals ::
  "('a::{ord,plus,zero}) FinderEnv \<Rightarrow> Snarl \<Rightarrow> error + Visit list list" where
  "find_traversals E site =
     (if type site \<noteq> ULTRABUBBLE then Inl (AssertionFailure ''site.type() == ULTRABUBBLE'')
      else
        (case select_index E site of
           Inl e \<Rightarrow> Inl e
         | Inr index \<Rightarrow>
             (case site_position index (start site) of
                Inl e \<Rightarrow> Inl e
              | Inr site_start \<Rightarrow>
                  (case site_position index (end' site) of
                     Inl e \<Rightarrow> Inl e
                   | Inr site_end \<Rightarrow>
                       (case trace_ref_path E index site (fst (shallow_contents E site))
                               site_start site_end of
                          Inl e \<Rightarrow> Inl e
                        | Inr ref_path \<Rightarrow>
                            (case site_traversals E index site ref_path of
                               Inl e \<Rightarrow> Inl e
                             | Inr site_traversal_set \<Rightarrow>
                                 Inr (unique_traversals E site_start site_end ref_path
                                        site_traversal_set)))))))"

subsection \<open>Notions used to state the results on find\_traversals\<close>

text \<open>The failure of the precondition check at the head of \<^verbatim>\<open>find_traversals\<close>.\<close>

definition precondition_failure :: error where
  "precondition_failure = AssertionFailure ''site.type() == ULTRABUBBLE''"

text \<open>
  The seeds the three loops do not skip, and the traversal a seed contributes: the
  splicing of its bubble path, when the bubble search returns a non-empty path.
\<close>

definition node_skipped :: "('a::{plus,zero}) FinderEnv \<Rightarrow> PathIndex \<Rightarrow> Node \<Rightarrow> bool" where
  "node_skipped E index n =
     (into_which_snarl_side E (id' n) True \<noteq> None
      \<or> into_which_snarl_side E (id' n) False \<noteq> None
      \<or> (has_supports E \<and> total_support (node_support E n) = 0)
      \<or> id' n \<in> dom (by_id index))"

definition edge_skipped :: "('a::{plus,zero}) FinderEnv \<Rightarrow> PathIndex \<Rightarrow> Edge \<Rightarrow> bool" where
  "edge_skipped E index edge =
     ((has_supports E \<and> total_support (edge_support E edge) = 0)
      \<or> from' edge \<notin> dom (by_id index) \<or> to' edge \<notin> dom (by_id index))"

definition spliced ::
  "('a, 'b) FinderEnv_scheme \<Rightarrow> Snarl \<Rightarrow> Node list \<Rightarrow> Visit list
     \<Rightarrow> error + ('c Support \<times> Visit list) \<Rightarrow> Visit list \<Rightarrow> bool" where
  "spliced E site contents_nodes ref_path sup_path extended_path =
     (\<exists>support path. sup_path = Inr (support, path) \<and> path \<noteq> []
        \<and> extend_into_allele E site contents_nodes ref_path path = Inr extended_path)"

definition spliced_bubbles ::
  "('a::{ord,plus,zero}) FinderEnv \<Rightarrow> PathIndex \<Rightarrow> Snarl \<Rightarrow> Visit list \<Rightarrow> Visit list set" where
  "spliced_bubbles E index site ref_path =
     {x. (\<exists>n \<in> set (fst (shallow_contents E site)).
            \<not> node_skipped E index n
            \<and> spliced E site (fst (shallow_contents E site)) ref_path
                (find_bubble E (Some n) None None index site) x)
       \<or> (\<exists>edge \<in> set (snd (shallow_contents E site)).
            \<not> edge_skipped E index edge
            \<and> spliced E site (fst (shallow_contents E site)) ref_path
                (find_bubble E None (Some edge) None index site) x)
       \<or> (\<exists>child \<in> set (children_of_site E site).
            spliced E site (fst (shallow_contents E site)) ref_path
              (find_bubble E None None (Some child) index site) x)}"

text \<open>
  Where a scan of a list stops: a scan for \<open>P\<close> that starts at position \<open>lo\<close> stops at
  position \<open>k\<close> when \<open>k\<close> is the first position from \<open>lo\<close> on whose element meets \<open>P\<close>; it
  runs out when no element from \<open>lo\<close> on meets \<open>P\<close>.
\<close>

definition scan_stops_at :: "('x \<Rightarrow> bool) \<Rightarrow> 'x list \<Rightarrow> nat \<Rightarrow> nat \<Rightarrow> bool" where
  "scan_stops_at P xs lo k =
     (lo \<le> k \<and> k < length xs \<and> P (xs ! k)
      \<and> list_all (\<lambda>x. \<not> P x) (take (k - lo) (drop lo xs)))"

definition scan_runs_out :: "('x \<Rightarrow> bool) \<Rightarrow> 'x list \<Rightarrow> nat \<Rightarrow> bool" where
  "scan_runs_out P xs lo = list_all (\<lambda>x. \<not> P x) (drop lo xs)"

text \<open>The two conditions the search for the bubble's right anchor scans for.\<close>

definition first_scan_condition :: "Visit \<Rightarrow> Visit \<Rightarrow> bool" where
  "first_scan_condition bubble_last ref_visit = right_anchor_matches ref_visit bubble_last"

definition restart_scan_condition :: "Visit \<Rightarrow> Visit \<Rightarrow> bool" where
  "restart_scan_condition bubble_last ref_visit =
     (frontier_visit ref_visit True = frontier_visit bubble_last False)"

text \<open>The check at the head of \<^verbatim>\<open>extend_into_allele\<close>: every node visited is in the site.\<close>

definition path_in_contents ::
  "('a, 'b) FinderEnv_scheme \<Rightarrow> Node list \<Rightarrow> Visit list \<Rightarrow> bool" where
  "path_in_contents E contents_nodes path =
     list_all (\<lambda>visit. node_id visit = 0 \<or> get_node E (node_id visit) \<in> set contents_nodes)
       path"

subsection \<open>The backbone trace, as the specification words it\<close>
















section \<open>Example inputs\<close>

subsection \<open>Snarl finder\<close>

text \<open>
  A graph with the edges 1-2, 2-3, 2-4, 3-5, 4-5 and 5-6, all joining the end of the
  first node to the start of the second: the snarl from 1 to 6 holds one chain with the
  child snarl from 2 to 5.
\<close>

definition bubble_edges :: "handle_t \<Rightarrow> handle_t list" where
  "bubble_edges h =
     (if h = (1, False) then [(2, False)]
      else if h = (2, False) then [(3, False), (4, False)]
      else if h = (3, False) then [(5, False)]
      else if h = (4, False) then [(5, False)]
      else if h = (5, False) then [(6, False)]
      else [])"

definition nested_bubble_env :: SnarlFinderEnv where
  "nested_bubble_env =
     \<lparr>graph_size = 6,
      snarl_decomposition =
        ([[stSnarl \<lparr>node = 1, is_end = True\<rparr> \<lparr>node = 6, is_end = False\<rparr>
             [[stSnarl \<lparr>node = 2, is_end = True\<rparr> \<lparr>node = 5, is_end = False\<rparr> [] []]] []]],
         []),
      follow_edges = (\<lambda>use_internal_connectivity s e children. bubble_edges),
      is_directed_acyclic = (\<lambda>s e children. True)\<rparr>"

definition nested_bubble_manager :: SnarlManager where
  "nested_bubble_manager =
     \<lparr>managed_snarls =
        [Snarl ULTRABUBBLE (Visit 2 None False) (Visit 5 None False)
           (Some (Snarl UNCLASSIFIED (Visit 1 None False) (Visit 6 None False) None
                    False False False False))
           False False True True,
         Snarl ULTRABUBBLE (Visit 1 None False) (Visit 6 None False) None
           False False True True],
      managed_chains = [([Some 0], Some 1), ([Some 1], None)]\<rparr>"

text \<open>
  A single node 1 whose end is a tip: one top-level unary snarl, both of whose cactus
  edge ends are the same side of node 1.
\<close>

definition tip_env :: SnarlFinderEnv where
  "tip_env =
     \<lparr>graph_size = 1,
      snarl_decomposition =
        ([], [stSnarl \<lparr>node = 1, is_end = True\<rparr> \<lparr>node = 1, is_end = True\<rparr> [] []]),
      follow_edges = (\<lambda>use_internal_connectivity s e children h. []),
      is_directed_acyclic = (\<lambda>s e children. True)\<rparr>"

definition tip_manager :: SnarlManager where
  "tip_manager =
     \<lparr>managed_snarls =
        [Snarl UNARY (Visit 1 None False) (Visit 1 None True) None False False False True],
      managed_chains = [([Some 0], None)]\<rparr>"

text \<open>The graph with no nodes; its decomposition is never looked at.\<close>

definition empty_graph_env :: SnarlFinderEnv where
  "empty_graph_env =
     \<lparr>graph_size = 0,
      snarl_decomposition = ([], []),
      follow_edges = (\<lambda>use_internal_connectivity s e children h. []),
      is_directed_acyclic = (\<lambda>s e children. True)\<rparr>"

subsection \<open>Traversal finder\<close>

text \<open>
  A bubble with a two-node alternative: nodes 1 to 5, each with a one-base sequence, and
  the edges 1-2, 2-5, 1-3, 3-4 and 4-5 (end of the first node to start of the second).
  The indexed path is 1, 2, 5. The site runs from node 1 to node 5 and has no child.
\<close>

definition V :: "int \<Rightarrow> Visit" where
  "V n = Visit n None False"

definition R :: "int \<Rightarrow> Visit" where
  "R n = Visit n None True"

definition N :: "int \<Rightarrow> Node" where
  "N n = \<lparr>id' = n, sequence = ''A''\<rparr>"

definition bubble_arcs :: "(int \<times> int) list" where
  "bubble_arcs = [(1, 2), (2, 5), (1, 3), (3, 4), (4, 5)]"

definition arc :: "int \<times> int \<Rightarrow> Edge" where
  "arc a = \<lparr>from' = fst a, to' = snd a, from_start = False, to_end = False\<rparr>"

definition bubble_get_edge :: "NodeSide \<Rightarrow> NodeSide \<Rightarrow> Edge option" where
  "bubble_get_edge a b =
     map_option arc
       (find (\<lambda>e. (a = \<lparr>node = fst e, is_end = True\<rparr> \<and> b = \<lparr>node = snd e, is_end = False\<rparr>)
                \<or> (b = \<lparr>node = fst e, is_end = True\<rparr> \<and> a = \<lparr>node = snd e, is_end = False\<rparr>))
          bubble_arcs)"

definition bubble_visits_left :: "Visit \<Rightarrow> Visit list" where
  "bubble_visits_left v =
     (if backward v
      then map (\<lambda>e. R (snd e)) (filter (\<lambda>e. fst e = node_id v) bubble_arcs)
      else map (\<lambda>e. V (fst e)) (filter (\<lambda>e. snd e = node_id v) bubble_arcs))"

definition node_left_side :: "Visit \<Rightarrow> NodeSide" where
  "node_left_side v = \<lparr>node = node_id v, is_end = backward v\<rparr>"

definition node_right_side :: "Visit \<Rightarrow> NodeSide" where
  "node_right_side v = \<lparr>node = node_id v, is_end = (\<not> backward v)\<rparr>"

definition bubble_index :: PathIndex where
  "bubble_index =
     \<lparr>by_id = [1 \<mapsto> (0, False), 2 \<mapsto> (1, False), 5 \<mapsto> (2, False)],
      by_start = [(0, V 1), (1, V 2), (2, V 5)]\<rparr>"

text \<open>
  The sets of length-and-path pairs and of visit sequences that arise on this graph hold
  only the elements listed here; a set is iterated in the order of the list.
\<close>

definition bubble_paths :: "(nat \<times> Visit list) list" where
  "bubble_paths =
     [(1, [V 1]), (1, [V 2]), (1, [V 5]), (1, [R 2]), (1, [R 5]), (2, [V 1, V 3]),
      (2, [V 4, V 5]), (2, [R 5, R 4]), (3, [V 1, V 3, V 4]), (3, [V 3, V 4, V 5]),
      (3, [R 5, R 4, R 3])]"

definition bubble_traversals :: "Visit list list" where
  "bubble_traversals = [[V 1, V 2, V 5], [V 1, V 3, V 4, V 5]]"

definition bubble_env :: "real FinderEnv" where
  "bubble_env =
     \<lparr>max_depth = 10, max_width = 10, max_bubble_paths = 100, verbose = False,
      get_node = N, get_edge = bubble_get_edge,
      has_supports = False,
      node_support = (\<lambda>n. Support_default), edge_support = (\<lambda>e. Support_default),
      snarl_at = (\<lambda>a. Snarl_default), manage = (\<lambda>s. 0),
      into_which_snarl = (\<lambda>v. None), into_which_snarl_side = (\<lambda>i r. None),
      visits_left = (\<lambda>v in_snarl. bubble_visits_left v),
      shallow_contents = (\<lambda>s. (map N [1, 2, 3, 4, 5], map arc bubble_arcs)),
      children_of_site = (\<lambda>s. []),
      get_index = (\<lambda>s. Some bubble_index), backbone_index = (\<lambda>s. None),
      to_left_side = node_left_side, to_right_side = node_right_side,
      paths_in_order = (\<lambda>S. filter (\<lambda>p. p \<in> S) bubble_paths),
      traversals_in_order = (\<lambda>S. filter (\<lambda>p. p \<in> S) bubble_traversals)\<rparr>"

definition bubble_site :: Snarl where
  "bubble_site = Snarl ULTRABUBBLE (V 1) (V 5) None False False True True"

text \<open>The same site seen from the other strand: the indexed path runs against it.\<close>

definition reverse_site :: Snarl where
  "reverse_site = Snarl ULTRABUBBLE (R 5) (R 1) None False False True True"

text \<open>The same finder with a search depth of 1, and with a queue width of 0.\<close>

definition shallow_env :: "real FinderEnv" where
  "shallow_env = bubble_env\<lparr>max_depth := 1\<rparr>"

definition zero_width_env :: "real FinderEnv" where
  "zero_width_env = bubble_env\<lparr>max_width := 0\<rparr>"


text \<open>
  The same bubble inside a longer indexed path: node 6 comes before node 1 and node 7 after
  node 5, so the site from node 1 to node 5 lies strictly inside the index.
\<close>

definition flanked_arcs :: "(int \<times> int) list" where
  "flanked_arcs = (6, 1) # bubble_arcs @ [(5, 7)]"

definition flanked_get_edge :: "NodeSide \<Rightarrow> NodeSide \<Rightarrow> Edge option" where
  "flanked_get_edge a b =
     map_option arc
       (find (\<lambda>e. (a = \<lparr>node = fst e, is_end = True\<rparr> \<and> b = \<lparr>node = snd e, is_end = False\<rparr>)
                \<or> (b = \<lparr>node = fst e, is_end = True\<rparr> \<and> a = \<lparr>node = snd e, is_end = False\<rparr>))
          flanked_arcs)"

definition flanked_visits_left :: "Visit \<Rightarrow> Visit list" where
  "flanked_visits_left v =
     (if backward v
      then map (\<lambda>e. R (snd e)) (filter (\<lambda>e. fst e = node_id v) flanked_arcs)
      else map (\<lambda>e. V (fst e)) (filter (\<lambda>e. snd e = node_id v) flanked_arcs))"

definition flanked_index :: PathIndex where
  "flanked_index =
     \<lparr>by_id = [6 \<mapsto> (0, False), 1 \<mapsto> (1, False), 2 \<mapsto> (2, False), 5 \<mapsto> (3, False),
               7 \<mapsto> (4, False)],
      by_start = [(0, V 6), (1, V 1), (2, V 2), (3, V 5), (4, V 7)]\<rparr>"

definition flanked_env :: "real FinderEnv" where
  "flanked_env =
     bubble_env\<lparr>get_edge := flanked_get_edge,
                visits_left := (\<lambda>v in_snarl. flanked_visits_left v),
                get_index := (\<lambda>s. Some flanked_index)\<rparr>"

text \<open>A finder with no primary path index, whose backbone search finds no traversal.\<close>

definition unindexed_env :: "real FinderEnv" where
  "unindexed_env = bubble_env\<lparr>get_index := (\<lambda>s. None)\<rparr>"














section \<open>Support arithmetic: results\<close>

lemma std_min_is_min: "std_min (a::'a::linorder) b = min a b"
  by (auto simp: std_min_def min_def)

text \<open>
  C8 (as stated, refuted): \<^verbatim>\<open>support_min\<close> is not the minimum over every component.
  On two supports whose \<open>left\<close> and \<open>right\<close> counts are 1 it returns 0 for both, because
  it never sets them.
\<close>

theorem support_min_left_right_counterexample:
  "support_min \<lparr>quality = 1, forward = 1, reverse = 1, left = 1, right = (1::int)\<rparr>
               \<lparr>quality = 1, forward = 1, reverse = 1, left = 1, right = 1\<rparr>
   \<noteq> componentwise_min \<lparr>quality = 1, forward = 1, reverse = 1, left = 1, right = 1\<rparr>
                        \<lparr>quality = 1, forward = 1, reverse = 1, left = 1, right = 1\<rparr>"
  by (simp add: support_min_def componentwise_min_def Support_default_def std_min_def)

text \<open>
  C8 (amended): \<^verbatim>\<open>support_min\<close> takes the minimum of the forward, reverse and
  quality components and leaves the left and right counts at their default 0; the sum
  operator adds every one of the five components; \<^verbatim>\<open>total\<close> is forward plus reverse.
\<close>

theorem support_combination:
  fixes a b :: "('a::{linorder,plus,zero}) Support"
  shows "support_min a b =
           \<lparr>quality = min (quality a) (quality b), forward = min (forward a) (forward b),
            reverse = min (reverse a) (reverse b), left = 0, right = 0\<rparr>
       \<and> support_add a b =
           \<lparr>quality = quality a + quality b, forward = forward a + forward b,
            reverse = reverse a + reverse b, left = left a + left b,
            right = right a + right b\<rparr>
       \<and> total_support a = forward a + reverse a"
  by (simp add: support_min_def support_add_def total_support_def Support_default_def std_min_is_min)

section \<open>Snarl finder: results\<close>

lemma set_type_sel [simp]:
  "type (set_type t s) = t" "start (set_type t s) = start s" "end' (set_type t s) = end' s"
  "start_self_reachable (set_type t s) = start_self_reachable s"
  "end_self_reachable (set_type t s) = end_self_reachable s"
  "start_end_reachable (set_type t s) = start_end_reachable s"
  "directed_acyclic_net_graph (set_type t s) = directed_acyclic_net_graph s"
  by (cases s; simp)+

lemma set_dag_sel [simp]:
  "start (set_directed_acyclic_net_graph b s) = start s"
  "end' (set_directed_acyclic_net_graph b s) = end' s"
  by (cases s; simp)+

lemma set_connectivity_sel [simp]:
  "start (set_connectivity a b c s) = start s"
  "end' (set_connectivity a b c s) = end' s"
  by (cases s; simp)+

lemma connectivity_boundaries:
  "connectivity E sv ev ch s = Inr s' \<Longrightarrow> start s' = start s \<and> end' s' = end' s"
  by (auto simp: connectivity_def Let_def split: option.splits prod.splits)

lemma new_snarl_real:
  "node_id (start (new_snarl sv ev ps pe)) \<noteq> 0 \<or> node_id (end' (new_snarl sv ev ps pe)) \<noteq> 0
   \<Longrightarrow> start (new_snarl sv ev ps pe) = sv \<and> end' (new_snarl sv ev ps pe) = ev"
  by (auto simp: new_snarl_def Snarl_default_def Visit_default_def Let_def split: if_splits)

lemma chain_all_ultrabubble_True:
  "chain_all_ultrabubble m c = Inr True \<Longrightarrow>
   \<forall>x \<in> set c. \<exists>j. x = Some j \<and> type (managed_snarls m ! j) = ULTRABUBBLE"
  by (induction m c rule: chain_all_ultrabubble.induct) (auto split: if_splits)

lemma chain_all_ultrabubble_False:
  "chain_all_ultrabubble m c = Inr False \<Longrightarrow>
   \<exists>j. Some j \<in> set c \<and> type (managed_snarls m ! j) \<noteq> ULTRABUBBLE"
  by (induction m c rule: chain_all_ultrabubble.induct) (auto split: if_splits)

lemma all_ultrabubble_children_True:
  "all_ultrabubble_children m cs = Inr True \<Longrightarrow>
   \<forall>x \<in> set (concat cs). \<exists>j. x = Some j \<and> type (managed_snarls m ! j) = ULTRABUBBLE"
proof (induction m cs rule: all_ultrabubble_children.induct)
  case (1 m)
  then show ?case by simp
next
  case (2 m chain rest)
  show ?case
  proof (cases "chain_all_ultrabubble m chain")
    case (Inl e)
    with "2.prems" show ?thesis by simp
  next
    case (Inr b)
    show ?thesis
    proof (cases b)
      case True
      with Inr "2.prems" have "all_ultrabubble_children m rest = Inr True" by simp
      from "2.IH"[of b] chain_all_ultrabubble_True[of m chain] Inr True this
      show ?thesis by auto
    next
      case False
      with Inr "2.prems" show ?thesis by simp
    qed
  qed
qed

lemma all_ultrabubble_children_False:
  "all_ultrabubble_children m cs = Inr False \<Longrightarrow>
   \<exists>j. Some j \<in> set (concat cs) \<and> type (managed_snarls m ! j) \<noteq> ULTRABUBBLE"
proof (induction m cs rule: all_ultrabubble_children.induct)
  case (1 m)
  then show ?case by simp
next
  case (2 m chain rest)
  show ?case
  proof (cases "chain_all_ultrabubble m chain")
    case (Inl e)
    with "2.prems" show ?thesis by simp
  next
    case (Inr b)
    show ?thesis
    proof (cases b)
      case True
      with Inr "2.prems" have "all_ultrabubble_children m rest = Inr False" by simp
      from "2.IH"[of b] Inr True this show ?thesis by auto
    next
      case False
      with Inr chain_all_ultrabubble_False[of m chain] show ?thesis by auto
    qed
  qed
qed

lemma fold_add_chain:
  "fold (\<lambda>chain d. add_chain chain p d) chs d =
   d\<lparr>managed_chains := managed_chains d @ map (\<lambda>c. (c, p)) chs\<rparr>"
  by (induction chs arbitrary: d) (simp_all add: add_chain_def)

lemma children_of_old:
  assumes "i \<noteq> n"
  shows "children_of (d\<lparr>managed_snarls := xs, managed_chains := managed_chains d @ map (\<lambda>c. (c, Some n)) chs\<rparr>) i
       = children_of d i"
  using assms by (simp add: children_of_def filter_map o_def)

lemma children_of_root_chains:
  "children_of (d\<lparr>managed_chains := managed_chains d @ map (\<lambda>c. (c, None)) chs\<rparr>) i
       = children_of d i"
  by (simp add: children_of_def filter_map o_def)

lemma children_of_new:
  assumes "manager_wf d" "n = length (managed_snarls d)"
  shows "children_of (d\<lparr>managed_snarls := xs, managed_chains := managed_chains d @ map (\<lambda>c. (c, Some n)) chs\<rparr>) n
       = concat chs"
proof -
  have "filter (\<lambda>cp. snd cp = Some n) (managed_chains d) = []"
    using assms by (auto simp: manager_wf_def filter_empty_conv)
  then show ?thesis
    by (simp add: children_of_def filter_map o_def)
qed

lemma children_valid:
  assumes "manager_wf d" "Some j \<in> set (children_of d i)"
  shows "j < length (managed_snarls d)"
  using assms by (auto simp: manager_wf_def pointers_valid_def children_of_def)

lemma classify_table:
  assumes "classify d sv ev chs s = Inr s'" "node_id sv \<noteq> node_id ev"
  shows "type s' =
      (if \<not> start_end_reachable s' then UNCLASSIFIED
      else if start_self_reachable s' \<or> end_self_reachable s' then UNCLASSIFIED
      else if \<exists>j. Some j \<in> set (concat chs) \<and> type (managed_snarls d ! j) \<noteq> ULTRABUBBLE then UNCLASSIFIED
      else if \<not> directed_acyclic_net_graph s' then UNCLASSIFIED
      else ULTRABUBBLE)"
proof (cases "start_end_reachable s \<and> \<not> start_self_reachable s \<and> \<not> end_self_reachable s")
  case False
  then show ?thesis using assms by (auto simp: classify_def split: if_splits)
next
  case True
  then obtain b where b: "all_ultrabubble_children d chs = Inr b"
    using assms by (auto simp: classify_def split: sum.splits)
  show ?thesis
  proof (cases b)
    case True
    from b True have "all_ultrabubble_children d chs = Inr True" by simp
    from all_ultrabubble_children_True[OF this]
    have "\<not> (\<exists>j. Some j \<in> set (concat chs) \<and> type (managed_snarls d ! j) \<noteq> ULTRABUBBLE)"
      by fastforce
    then show ?thesis using assms b True \<open>start_end_reachable s \<and> _\<close>
      by (auto simp: classify_def split: if_splits)
  next
    case False
    from b False have "all_ultrabubble_children d chs = Inr False" by simp
    from all_ultrabubble_children_False[OF this]
    have "\<exists>j. Some j \<in> set (concat chs) \<and> type (managed_snarls d ! j) \<noteq> ULTRABUBBLE" .
    then show ?thesis using assms b False \<open>start_end_reachable s \<and> _\<close>
      by (auto simp: classify_def split: if_splits)
  qed
qed

lemma classify_unary:
  assumes "classify d sv ev chs s = Inr s'" "node_id sv = node_id ev"
  shows "type s' = UNARY"
  using assms by (auto simp: classify_def)

lemma classify_boundaries:
  assumes "classify d sv ev chs s = Inr s'"
  shows "start s' = start s \<and> end' s' = end' s"
  using assms by (auto simp: classify_def split: if_splits sum.splits)

lemma classified_root_chains:
  assumes "manager_inv d" "pointers_valid d chs"
  shows "manager_inv (d\<lparr>managed_chains := managed_chains d @ map (\<lambda>c. (c, None)) chs\<rparr>)"
proof -
  let ?d' = "d\<lparr>managed_chains := managed_chains d @ map (\<lambda>c. (c, None)) chs\<rparr>"
  have wf: "manager_wf ?d'"
    using assms by (auto simp: manager_inv_def manager_wf_def pointers_valid_def)
  have "classified ?d' i" if "i < length (managed_snarls d)" for i
  proof -
    have "classified d i" using assms that by (simp add: manager_inv_def)
    then show ?thesis
      by (simp add: classified_def decision_table_def children_of_root_chains Let_def)
  qed
  with wf show ?thesis by (simp add: manager_inv_def)
qed

lemma classified_new_snarl:
  assumes inv: "manager_inv d" and pv: "pointers_valid d chs"
    and n: "n = length (managed_snarls d)"
    and unary: "node_id (start s) = node_id (end' s) \<Longrightarrow> type s = UNARY"
    and table: "node_id (start s) \<noteq> node_id (end' s) \<Longrightarrow> type s =
      (if \<not> start_end_reachable s then UNCLASSIFIED
      else if start_self_reachable s \<or> end_self_reachable s then UNCLASSIFIED
      else if \<exists>j. Some j \<in> set (concat chs) \<and> type (managed_snarls d ! j) \<noteq> ULTRABUBBLE then UNCLASSIFIED
      else if \<not> directed_acyclic_net_graph s then UNCLASSIFIED
      else ULTRABUBBLE)"
  shows "manager_inv (d\<lparr>managed_snarls := managed_snarls d @ [s],
                        managed_chains := managed_chains d @ map (\<lambda>c. (c, Some n)) chs\<rparr>)"
proof -
  let ?d' = "d\<lparr>managed_snarls := managed_snarls d @ [s],
                managed_chains := managed_chains d @ map (\<lambda>c. (c, Some n)) chs\<rparr>"
  have wfd: "manager_wf d" using inv by (simp add: manager_inv_def)
  have wf: "manager_wf ?d'"
    using wfd pv n by (auto simp: manager_wf_def pointers_valid_def less_Suc_eq)
  have old: "classified ?d' i" if i: "i < n" for i
  proof -
    have c: "classified d i" using inv i n by (simp add: manager_inv_def)
    have ch: "children_of ?d' i = children_of d i"
      using i by (simp add: children_of_old)
    have valid: "j < length (managed_snarls d)"
      if "Some j \<in> set (children_of d i)" for j
      using children_valid[OF wfd that] .
    have "decision_table ?d' i = decision_table d i"
      unfolding decision_table_def ch Let_def using i n valid by (auto simp: nth_append)
    with c show ?thesis using i n by (simp add: classified_def nth_append Let_def)
  qed
  have new: "classified ?d' n"
  proof -
    have ch: "children_of ?d' n = concat chs"
      using wfd n by (simp add: children_of_new)
    have sn: "managed_snarls ?d' ! n = s" using n by simp
    have valid: "j < length (managed_snarls d)" if "Some j \<in> set (concat chs)" for j
      using that pv by (auto simp: pointers_valid_def)
    have eq: "(\<exists>j. Some j \<in> set (concat chs) \<and> type (managed_snarls ?d' ! j) \<noteq> ULTRABUBBLE)
        = (\<exists>j. Some j \<in> set (concat chs) \<and> type (managed_snarls d ! j) \<noteq> ULTRABUBBLE)"
      using valid by (auto simp: nth_append)
    have dt: "decision_table ?d' n =
      (if \<not> start_end_reachable s then UNCLASSIFIED
      else if start_self_reachable s \<or> end_self_reachable s then UNCLASSIFIED
      else if \<exists>j. Some j \<in> set (concat chs) \<and> type (managed_snarls d ! j) \<noteq> ULTRABUBBLE then UNCLASSIFIED
      else if \<not> directed_acyclic_net_graph s then UNCLASSIFIED
      else ULTRABUBBLE)"
      unfolding decision_table_def ch Let_def sn eq ..
    show ?thesis
      unfolding classified_def Let_def sn dt using unary table by blast
  qed
  have "classified ?d' i" if "i < length (managed_snarls ?d')" for i
    using that old new n by (cases "i = n") auto
  with wf show ?thesis by (simp add: manager_inv_def)
qed

lemma finish_snarl_inv:
  assumes inv: "manager_inv d" and pv: "pointers_valid d chs"
    and res: "finish_snarl E sv ev (new_snarl sv ev ps pe) chs d = Inr (mg, d')"
  shows "manager_inv d' \<and> length (managed_snarls d) \<le> length (managed_snarls d')
         \<and> (\<forall>i. mg = Some i \<longrightarrow> i < length (managed_snarls d'))"
proof (cases "node_id (start (new_snarl sv ev ps pe)) \<noteq> 0 \<or> node_id (end' (new_snarl sv ev ps pe)) \<noteq> 0")
  case False
  with res have "mg = None" and "d' = d\<lparr>managed_chains := managed_chains d @ map (\<lambda>c. (c, None)) chs\<rparr>"
    by (auto simp: finish_snarl_def fold_add_chain)
  then show ?thesis using classified_root_chains[OF inv pv] by simp
next
  case True
  let ?sn = "new_snarl sv ev ps pe"
  let ?children = "map (map (deref d)) chs"
  from new_snarl_real[OF True] have b0: "start ?sn = sv" "end' ?sn = ev" by simp_all
  from res True obtain s1 where s1: "connectivity E sv ev ?children ?sn = Inr s1"
    by (auto simp: finish_snarl_def Let_def split: sum.splits)
  let ?s2 = "set_directed_acyclic_net_graph (is_directed_acyclic E sv ev ?children) s1"
  from res True s1 obtain s3 where s3: "classify d sv ev chs ?s2 = Inr s3"
    by (auto simp: finish_snarl_def Let_def split: sum.splits)
  let ?n = "length (managed_snarls d)"
  from res True s1 s3 have mg: "mg = Some ?n"
    and d': "d' = d\<lparr>managed_snarls := managed_snarls d @ [s3],
                     managed_chains := managed_chains d @ map (\<lambda>c. (c, Some ?n)) chs\<rparr>"
    by (auto simp: finish_snarl_def Let_def add_snarl_def fold_add_chain)
  have b3: "start s3 = sv" "end' s3 = ev"
    using classify_boundaries[OF s3] connectivity_boundaries[OF s1] b0 by simp_all
  have "manager_inv d'"
    unfolding d'
  proof (rule classified_new_snarl[OF inv pv refl])
    assume "node_id (start s3) = node_id (end' s3)"
    then show "type s3 = UNARY" using classify_unary[OF s3] b3 by simp
  next
    assume "node_id (start s3) \<noteq> node_id (end' s3)"
    then show "type s3 =
      (if \<not> start_end_reachable s3 then UNCLASSIFIED
      else if start_self_reachable s3 \<or> end_self_reachable s3 then UNCLASSIFIED
      else if \<exists>j. Some j \<in> set (concat chs) \<and> type (managed_snarls d ! j) \<noteq> ULTRABUBBLE then UNCLASSIFIED
      else if \<not> directed_acyclic_net_graph s3 then UNCLASSIFIED
      else ULTRABUBBLE)"
      using classify_table[OF s3] b3 by simp
  qed
  then show ?thesis using mg d' by simp
qed

lemma pointers_valid_mono:
  "pointers_valid d cs \<Longrightarrow> length (managed_snarls d) \<le> length (managed_snarls d')
   \<Longrightarrow> pointers_valid d' cs"
  by (fastforce simp: pointers_valid_def)

lemma pointers_valid_simps [simp]:
  "pointers_valid d []"
  "pointers_valid d (c # cs) =
     ((\<forall>i. Some i \<in> set c \<longrightarrow> i < length (managed_snarls d)) \<and> pointers_valid d cs)"
  "pointers_valid d (cs @ cs') = (pointers_valid d cs \<and> pointers_valid d cs')"
  by (auto simp: pointers_valid_def)

declare recursively_emit_snarls.simps [simp del]

lemma emit_inv:
  "manager_inv d \<Longrightarrow> recursively_emit_snarls E sv ev ps pe cl ul d = Inr (mg, d') \<Longrightarrow>
     manager_inv d' \<and> length (managed_snarls d) \<le> length (managed_snarls d')
         \<and> (\<forall>i. mg = Some i \<longrightarrow> i < length (managed_snarls d'))"
  "manager_inv d \<Longrightarrow> emit_chains E sv ev cl d = Inr (chs, d') \<Longrightarrow>
     manager_inv d' \<and> length (managed_snarls d) \<le> length (managed_snarls d')
         \<and> pointers_valid d' chs"
  "manager_inv d \<Longrightarrow> emit_chain E sv ev ul d = Inr (ch, d') \<Longrightarrow>
     manager_inv d' \<and> length (managed_snarls d) \<le> length (managed_snarls d')
         \<and> pointers_valid d' [ch]"
  "manager_inv d \<Longrightarrow> emit_unary_snarls E sv ev ul d = Inr (chs, d') \<Longrightarrow>
     manager_inv d' \<and> length (managed_snarls d) \<le> length (managed_snarls d')
         \<and> pointers_valid d' chs"
proof (induction E sv ev ps pe cl ul d and E sv ev cl d and E sv ev ul d and E sv ev ul d
       arbitrary: mg d' and chs d' and ch d' and chs d'
       rule: recursively_emit_snarls_emit_chains_emit_chain_emit_unary_snarls.induct)
  case (1 E sv ev ps pe cl ul d)
  note res = "1.prems"(2)[unfolded recursively_emit_snarls.simps[of E sv ev ps pe cl ul d]]
  from res obtain c1 d1 where r1: "emit_chains E sv ev cl d = Inr (c1, d1)"
    by (auto split: sum.splits)
  from res r1 obtain c2 d2 where r2: "emit_unary_snarls E sv ev ul d1 = Inr (c2, d2)"
    by (auto split: sum.splits)
  from res r1 r2 have r3: "finish_snarl E sv ev (new_snarl sv ev ps pe) (c1 @ c2) d2 = Inr (mg, d')"
    by simp
  from "1.IH"(1)[OF "1.prems"(1) r1] have i1: "manager_inv d1"
    "length (managed_snarls d) \<le> length (managed_snarls d1)" "pointers_valid d1 c1" by simp_all
  from "1.IH"(2)[OF r1 refl i1(1) r2] have i2: "manager_inv d2"
    "length (managed_snarls d1) \<le> length (managed_snarls d2)" "pointers_valid d2 c2" by simp_all
  have pv: "pointers_valid d2 (c1 @ c2)"
    using pointers_valid_mono[OF i1(3) i2(2)] i2(3) by simp
  from finish_snarl_inv[OF i2(1) pv r3] i1(2) i2(2) show ?case by simp
next
  case (2 E sv ev d)
  then show ?case by simp
next
  case (3 E sv ev cc rest d)
  from "3.prems"(2) obtain c1 d1 where r1: "emit_chain E sv ev cc d = Inr (c1, d1)"
    by (auto split: sum.splits)
  from "3.prems"(2) r1 obtain c2 d2 where r2: "emit_chains E sv ev rest d1 = Inr (c2, d2)"
    by (auto split: sum.splits)
  from "3.prems"(2) r1 r2 have e: "chs = c1 # c2" "d' = d2" by simp_all
  from "3.IH"(1)[OF "3.prems"(1) r1] have i1: "manager_inv d1"
    "length (managed_snarls d) \<le> length (managed_snarls d1)" "pointers_valid d1 [c1]" by simp_all
  from "3.IH"(2)[OF r1 refl i1(1) r2] have i2: "manager_inv d2"
    "length (managed_snarls d1) \<le> length (managed_snarls d2)" "pointers_valid d2 c2" by simp_all
  show ?case using e i1 i2 pointers_valid_mono[OF i1(3) i2(2)] by simp
next
  case (4 E sv ev d)
  then show ?case by (simp add: pointers_valid_def)
next
  case (5 E sv ev e1 e2 chn un rest d)
  let ?cs = "stSnarl e1 e2 chn un"
  from "5.prems"(2) obtain m1 d1 where
    r1: "recursively_emit_snarls E (child_start ?cs) (child_end ?cs) sv ev chn un d = Inr (m1, d1)"
    by (auto split: sum.splits)
  from "5.prems"(2) r1 obtain c2 d2 where r2: "emit_chain E sv ev rest d1 = Inr (c2, d2)"
    by (auto split: sum.splits)
  from "5.prems"(2) r1 r2 have e: "ch = m1 # c2" "d' = d2" by simp_all
  from "5.IH"(1)[OF "5.prems"(1) r1] have i1: "manager_inv d1"
    "length (managed_snarls d) \<le> length (managed_snarls d1)"
    "\<forall>i. m1 = Some i \<longrightarrow> i < length (managed_snarls d1)" by simp_all
  from "5.IH"(2)[OF r1 refl i1(1) r2] have i2: "manager_inv d2"
    "length (managed_snarls d1) \<le> length (managed_snarls d2)" "pointers_valid d2 [c2]" by simp_all
  show ?case using e i1 i2 by auto
next
  case (6 E sv ev d)
  then show ?case by simp
next
  case (7 E sv ev e1 e2 chn un rest d)
  let ?cs = "stSnarl e1 e2 chn un"
  from "7.prems"(2) obtain m1 d1 where
    r1: "recursively_emit_snarls E (child_start ?cs) (child_end ?cs) sv ev chn un d = Inr (m1, d1)"
    by (auto split: sum.splits)
  from "7.prems"(2) r1 obtain c2 d2 where r2: "emit_unary_snarls E sv ev rest d1 = Inr (c2, d2)"
    by (auto split: sum.splits)
  from "7.prems"(2) r1 r2 have e: "chs = [m1] # c2" "d' = d2" by simp_all
  from "7.IH"(1)[OF "7.prems"(1) r1] have i1: "manager_inv d1"
    "length (managed_snarls d) \<le> length (managed_snarls d1)"
    "\<forall>i. m1 = Some i \<longrightarrow> i < length (managed_snarls d1)" by simp_all
  from "7.IH"(2)[OF r1 refl i1(1) r2] have i2: "manager_inv d2"
    "length (managed_snarls d1) \<le> length (managed_snarls d2)" "pointers_valid d2 c2" by simp_all
  show ?case using e i1 i2 by auto
qed

lemma manager_inv_empty: "manager_inv SnarlManager_empty"
  by (simp add: manager_inv_def manager_wf_def SnarlManager_empty_def)

lemma find_snarls_inv:
  assumes "find_snarls G = Inr m"
  shows "manager_inv m"
proof (cases "graph_size G = 0")
  case True
  with assms show ?thesis by (simp add: find_snarls_def manager_inv_empty)
next
  case False
  with assms obtain cl ul root_snarl where
    "recursively_emit_snarls G Visit_default Visit_default Visit_default Visit_default cl ul
       SnarlManager_empty = Inr (root_snarl, m)"
    by (auto simp: find_snarls_def split: prod.splits sum.splits)
  from emit_inv(1)[OF manager_inv_empty this] show ?thesis by simp
qed

lemma decision_table_not_unary: "decision_table m i \<noteq> UNARY"
  by (simp add: decision_table_def Let_def)

lemmas snarl_finder_eval =
  find_snarls_def recursively_emit_snarls.simps finish_snarl_def new_snarl_def
  connectivity_def classify_def start_search.simps end_search.simps handle_edge_def
  get_handle_def flip_def add_snarl_def add_chain_def deref_def child_start_def child_end_def
  Snarl_default_def Visit_default_def SnarlManager_empty_def Let_def

lemma find_snarls_nested_bubble: "find_snarls nested_bubble_env = Inr nested_bubble_manager"
  by (simp add: snarl_finder_eval nested_bubble_env_def nested_bubble_manager_def
        bubble_edges_def)

lemma find_snarls_tip: "find_snarls tip_env = Inr tip_manager"
  by (simp add: snarl_finder_eval tip_env_def tip_manager_def)

text \<open>
  C1: every snarl that \<^verbatim>\<open>find_snarls\<close> stores whose boundaries are on different
  nodes has the type the decision table gives for its stored flags and its recorded children;
  and every stored ULTRABUBBLE is connected through, cannot turn around at either boundary,
  has only ULTRABUBBLE children and an acyclic flat net graph.
\<close>

theorem snarl_type_decision_table:
  assumes "find_snarls G = Inr m" and "i < length (managed_snarls m)"
  shows "(node_id (start (managed_snarls m ! i)) \<noteq> node_id (end' (managed_snarls m ! i))
            \<longrightarrow> type (managed_snarls m ! i) = decision_table m i)
       \<and> (type (managed_snarls m ! i) = ULTRABUBBLE \<longrightarrow>
            start_end_reachable (managed_snarls m ! i)
          \<and> \<not> start_self_reachable (managed_snarls m ! i)
          \<and> \<not> end_self_reachable (managed_snarls m ! i)
          \<and> (\<forall>j. Some j \<in> set (children_of m i)
                  \<longrightarrow> type (managed_snarls m ! j) = ULTRABUBBLE)
          \<and> directed_acyclic_net_graph (managed_snarls m ! i))"
proof -
  let ?s = "managed_snarls m ! i"
  from find_snarls_inv[OF assms(1)] assms(2) have c: "classified m i"
    by (simp add: manager_inv_def)
  then have table: "node_id (start ?s) \<noteq> node_id (end' ?s) \<Longrightarrow> type ?s = decision_table m i"
    and unary: "node_id (start ?s) = node_id (end' ?s) \<Longrightarrow> type ?s = UNARY"
    by (simp_all add: classified_def Let_def)
  have "start_end_reachable ?s \<and> \<not> start_self_reachable ?s \<and> \<not> end_self_reachable ?s
      \<and> (\<forall>j. Some j \<in> set (children_of m i) \<longrightarrow> type (managed_snarls m ! j) = ULTRABUBBLE)
      \<and> directed_acyclic_net_graph ?s"
    if ub: "type ?s = ULTRABUBBLE"
  proof -
    from ub unary have "node_id (start ?s) \<noteq> node_id (end' ?s)" by auto
    from table[OF this] ub have "decision_table m i = ULTRABUBBLE" by simp
    then show ?thesis
      unfolding decision_table_def Let_def by (auto split: if_splits)
  qed
  with table show ?thesis by blast
qed

theorem snarl_type_decision_table_witness:
  "find_snarls nested_bubble_env = Inr nested_bubble_manager
   \<and> length (managed_snarls nested_bubble_manager) = 2
   \<and> node_id (start (managed_snarls nested_bubble_manager ! 1)) = 1
   \<and> node_id (end' (managed_snarls nested_bubble_manager ! 1)) = 6
   \<and> children_of nested_bubble_manager 1 = [Some 0]
   \<and> type (managed_snarls nested_bubble_manager ! 0) = ULTRABUBBLE
   \<and> decision_table nested_bubble_manager 1 = ULTRABUBBLE
   \<and> type (managed_snarls nested_bubble_manager ! 1) = ULTRABUBBLE
   \<and> start_end_reachable (managed_snarls nested_bubble_manager ! 1)
   \<and> \<not> start_self_reachable (managed_snarls nested_bubble_manager ! 1)
   \<and> \<not> end_self_reachable (managed_snarls nested_bubble_manager ! 1)
   \<and> directed_acyclic_net_graph (managed_snarls nested_bubble_manager ! 1)"
  using snarl_type_decision_table[OF find_snarls_nested_bubble, of 1]
  by (simp add: find_snarls_nested_bubble nested_bubble_manager_def children_of_def)

text \<open>
  C2 (as stated, refuted): on the graph with a single tip node the stored snarl is UNARY,
  yet its start visit (node 1 forward) and its end visit (node 1 backward) are different
  visits.
\<close>

theorem unary_distinct_boundaries_counterexample:
  "find_snarls tip_env = Inr tip_manager
   \<and> type (managed_snarls tip_manager ! 0) = UNARY
   \<and> start (managed_snarls tip_manager ! 0) \<noteq> end' (managed_snarls tip_manager ! 0)"
  by (simp add: find_snarls_tip tip_manager_def)

text \<open>
  C2 (amended): a snarl that \<^verbatim>\<open>find_snarls\<close> stores is UNARY exactly when its start and
  end visits are on the same node (have the same node id), whatever their orientations and
  whatever its connectivity flags.
\<close>

theorem unary_iff_same_node:
  assumes "find_snarls G = Inr m" and "i < length (managed_snarls m)"
  shows "(type (managed_snarls m ! i) = UNARY)
       = (node_id (start (managed_snarls m ! i)) = node_id (end' (managed_snarls m ! i)))"
proof -
  from find_snarls_inv[OF assms(1)] assms(2) have "classified m i"
    by (simp add: manager_inv_def)
  then show ?thesis
    using decision_table_not_unary[of m i] by (auto simp: classified_def Let_def)
qed

theorem unary_iff_same_node_witness:
  "find_snarls tip_env = Inr tip_manager
   \<and> length (managed_snarls tip_manager) = 1
   \<and> type (managed_snarls tip_manager ! 0) = UNARY
   \<and> node_id (start (managed_snarls tip_manager ! 0)) = 1
   \<and> node_id (end' (managed_snarls tip_manager ! 0)) = 1
   \<and> type (managed_snarls nested_bubble_manager ! 0) \<noteq> UNARY
   \<and> node_id (start (managed_snarls nested_bubble_manager ! 0)) = 2
   \<and> node_id (end' (managed_snarls nested_bubble_manager ! 0)) = 5"
  using unary_iff_same_node[OF find_snarls_tip, of 0]
        unary_iff_same_node[OF find_snarls_nested_bubble, of 0]
  by (simp add: find_snarls_tip tip_manager_def nested_bubble_manager_def)

text \<open>
  C9: on a graph with no nodes \<^verbatim>\<open>find_snarls\<close> returns, without failure, the
  default-constructed manager: it holds no snarl and no chain, and it is well-formed.
\<close>

theorem find_snarls_empty_graph:
  assumes "graph_size G = 0"
  shows "find_snarls G = Inr SnarlManager_empty
       \<and> managed_snarls SnarlManager_empty = []
       \<and> managed_chains SnarlManager_empty = []
       \<and> manager_inv SnarlManager_empty"
  using assms by (simp add: find_snarls_def manager_inv_empty) (simp add: SnarlManager_empty_def)

theorem find_snarls_empty_graph_witness:
  "graph_size empty_graph_env = 0
   \<and> find_snarls empty_graph_env = Inr SnarlManager_empty
   \<and> managed_snarls SnarlManager_empty = []
   \<and> managed_chains SnarlManager_empty = []"
  using find_snarls_empty_graph[of empty_graph_env]
  by (simp add: empty_graph_env_def)

section \<open>Bounded bubble search: results\<close>

lemma bfs_inv_initial: "bfs_inv E index visit (bfs_initial visit)"
  by (simp add: bfs_inv_def bfs_initial_def partial_path_def)

lemma consider_prev_inv:
  assumes "bfs_inv E index visit st" and "partial_path E index visit path"
    and "\<not> anchored index (hd path)" and "length path \<le> max_depth E"
    and "consider_prev E stopIfVisited path front prevVisit st = Inr st'"
  shows "bfs_inv E index visit st'"
proof (cases "st' = st")
  case True
  with assms(1) show ?thesis by simp
next
  case False
  with assms(5) have st': "st' = st\<lparr>toExtend := toExtend st @ [prevVisit # path],
                          stillToExtend := stillToExtend st + 1,
                          alreadyQueued := insert prevVisit (alreadyQueued st)\<rparr>"
    and room: "\<not> stillToExtend st \<ge> max_width E"
    by (auto simp: consider_prev_def Let_def split: if_splits option.splits sum.splits bool.splits)
  have "list_all (\<lambda>v. \<not> anchored index v) path"
    using assms(2,3) by (cases path) (auto simp: partial_path_def)
  then have "partial_path E index visit (prevVisit # path)"
    using assms(2,4) by (simp add: partial_path_def)
  with assms(1) room show ?thesis
    unfolding st' by (simp add: bfs_inv_def)
qed

lemma consider_all_inv:
  assumes "bfs_inv E index visit st" and "partial_path E index visit path"
    and "\<not> anchored index (hd path)" and "length path \<le> max_depth E"
    and "consider_all E stopIfVisited path front prevVisits st = Inr st'"
  shows "bfs_inv E index visit st'"
  using assms(1,5)
proof (induction prevVisits arbitrary: st)
  case Nil
  then show ?case by simp
next
  case (Cons v vs)
  from Cons.prems(2) obtain st1 where
    s1: "consider_prev E stopIfVisited path front v st = Inr st1" and
    s2: "consider_all E stopIfVisited path front vs st1 = Inr st'"
    by (auto split: sum.splits)
  from consider_prev_inv[OF Cons.prems(1) assms(2,3,4) s1] have "bfs_inv E index visit st1" .
  from Cons.IH[OF this s2] show ?case .
qed

lemma bfs_inv_dequeue:
  assumes "bfs_inv E index visit st" and "toExtend st = path # rest"
  shows "bfs_inv E index visit (dequeue st)" and "partial_path E index visit path"
    and "stillToExtend (dequeue st) = length rest"
    and "1 \<le> max_width E \<Longrightarrow> stillToExtend (dequeue st) < max_width E"
  using assms by (auto simp: bfs_inv_def dequeue_def)

lemma anchored_cases:
  "anchored index v =
     ((node_id v \<noteq> 0 \<and> node_id v \<in> dom (by_id index))
      \<or> (node_id v = 0 \<and> \<not> backward v \<and> node_id (start (snarl v)) \<in> dom (by_id index))
      \<or> (node_id v = 0 \<and> backward v \<and> node_id (end' (snarl v)) \<in> dom (by_id index)))"
  by (simp add: anchored_def)

lemma bfs_step_anchored:
  assumes "path \<noteq> []" and "anchored index (hd path)"
  shows "bfs_step E index stopIfVisited in_snarl path st
         = Inr (st\<lparr>toReturn := insert (bp_length E path, path) (toReturn st)\<rparr>)"
  using assms by (cases path) (auto simp: bfs_step_def anchored_cases)

lemma bfs_step_too_deep:
  assumes "path \<noteq> []" and "\<not> anchored index (hd path)" and "max_depth E < length path"
  shows "bfs_step E index stopIfVisited in_snarl path st = Inr st"
  using assms by (cases path) (auto simp: bfs_step_def anchored_cases)

lemma bfs_step_extend:
  assumes "path \<noteq> []" and "\<not> anchored index (hd path)" and "length path \<le> max_depth E"
  shows "bfs_step E index stopIfVisited in_snarl path st
         = consider_all E stopIfVisited path (hd path) (visits_left E (hd path) in_snarl) st"
  using assms by (cases path) (auto simp: bfs_step_def anchored_cases)

lemma bfs_step_inv:
  assumes inv: "bfs_inv E index visit st" and q: "toExtend st = path # rest"
    and s: "bfs_step E index stopIfVisited in_snarl path (dequeue st) = Inr st'"
  shows "bfs_inv E index visit st'"
proof -
  note d = bfs_inv_dequeue[OF inv q]
  from d(2) have ne: "path \<noteq> []" by (simp add: partial_path_def)
  show ?thesis
  proof (cases "anchored index (hd path)")
    case True
    from s[unfolded bfs_step_anchored[OF ne True]]
    have "st' = (dequeue st)\<lparr>toReturn := insert (bp_length E path, path) (toReturn (dequeue st))\<rparr>"
      by simp
    moreover have "found_path E index visit (bp_length E path, path)"
      using d(2) True by (simp add: found_path_def)
    ultimately show ?thesis using d(1) by (simp add: bfs_inv_def)
  next
    case False
    show ?thesis
    proof (cases "length path \<le> max_depth E")
      case True
      from s[unfolded bfs_step_extend[OF ne False True]]
      show ?thesis by (rule consider_all_inv[OF d(1) d(2) False True])
    next
      case deep: False
      then have "max_depth E < length path" by simp
      from s[unfolded bfs_step_too_deep[OF ne False this]] d(1) show ?thesis by simp
    qed
  qed
qed

lemma bfs_after_inv:
  assumes "bfs_inv E index visit st"
    and "bfs_after E index stopIfVisited in_snarl n st = Inr st'"
  shows "bfs_inv E index visit st'"
  using assms
proof (induction n arbitrary: st)
  case 0
  then show ?case by simp
next
  case (Suc n)
  show ?case
  proof (cases "toExtend st")
    case Nil
    with Suc.prems show ?thesis by simp
  next
    case (Cons path rest)
    with Suc.prems(2) obtain st1 where
      s1: "bfs_step E index stopIfVisited in_snarl path (dequeue st) = Inr st1" and
      s2: "bfs_after E index stopIfVisited in_snarl n st1 = Inr st'"
      by (auto split: sum.splits)
    from Suc.IH[OF bfs_step_inv[OF Suc.prems(1) Cons s1] s2] show ?thesis .
  qed
qed

declare bfs_loop.simps [simp del]

lemma bfs_loop_inv:
  assumes "bfs_inv E index visit st"
    and "bfs_loop E index stopIfVisited in_snarl st = Inr found"
  shows "\<forall>lp \<in> found. found_path E index visit lp"
  using assms
proof (induction E index stopIfVisited in_snarl st rule: bfs_loop.induct)
  case (1 E index stopIfVisited in_snarl st)
  show ?case
  proof (cases "toExtend st")
    case Nil
    with "1.prems" show ?thesis
      by (simp add: bfs_loop.simps[of E index stopIfVisited in_snarl st] bfs_inv_def)
  next
    case (Cons path rest)
    with "1.prems"(2) obtain st1 where
      s1: "bfs_step E index stopIfVisited in_snarl path (dequeue st) = Inr st1" and
      s2: "bfs_loop E index stopIfVisited in_snarl st1 = Inr found"
      by (auto simp: bfs_loop.simps[of E index stopIfVisited in_snarl st] split: sum.splits)
    from "1.IH"[OF Cons s1 bfs_step_inv[OF "1.prems"(1) Cons s1] s2] show ?thesis .
  qed
qed

lemma bfs_loop_cons:
  assumes "toExtend st = path # rest"
  shows "bfs_loop E index stopIfVisited in_snarl st
         = (case bfs_step E index stopIfVisited in_snarl path (dequeue st) of
              Inl e \<Rightarrow> Inl e
            | Inr st' \<Rightarrow> bfs_loop E index stopIfVisited in_snarl st')"
  using assms by (subst bfs_loop.simps) simp

lemma bfs_loop_all_too_deep:
  assumes "list_all (\<lambda>p. p \<noteq> [] \<and> \<not> anchored index (hd p) \<and> max_depth E < length p) queue"
  shows "bfs_loop E index stopIfVisited in_snarl
           \<lparr>toExtend = queue, stillToExtend = n, alreadyQueued = seen, toReturn = found\<rparr>
         = Inr found"
  using assms
proof (induction queue arbitrary: n)
  case Nil
  show ?case by (subst bfs_loop.simps) simp
next
  case (Cons p queue)
  then have p: "p \<noteq> []" "\<not> anchored index (hd p)" "max_depth E < length p"
    and rest: "list_all (\<lambda>p. p \<noteq> [] \<and> \<not> anchored index (hd p) \<and> max_depth E < length p) queue"
    by simp_all
  show ?case
    by (subst bfs_loop.simps)
       (simp add: bfs_step_too_deep[OF p] dequeue_def Cons.IH[OF rest])
qed

lemma bfs_loop_too_deep:
  assumes "list_all (\<lambda>p. p \<noteq> [] \<and> \<not> anchored index (hd p) \<and> max_depth E < length p)
             (toExtend st)"
  shows "bfs_loop E index stopIfVisited in_snarl st = Inr (toReturn st)"
proof -
  obtain q n seen found where
    st: "st = \<lparr>toExtend = q, stillToExtend = n, alreadyQueued = seen, toReturn = found\<rparr>"
    by (cases st) simp
  with assms bfs_loop_all_too_deep[of index E q stopIfVisited in_snarl n seen found]
  show ?thesis by simp
qed

lemma consider_prev_toReturn:
  assumes "consider_prev E stopIfVisited path front prevVisit st = Inr st'"
  shows "toReturn st' = toReturn st"
  using assms
  by (auto simp: consider_prev_def Let_def split: if_splits option.splits sum.splits bool.splits)

lemma consider_all_toReturn:
  assumes "consider_all E stopIfVisited path front prevVisits st = Inr st'"
  shows "toReturn st' = toReturn st"
  using assms
proof (induction prevVisits arbitrary: st)
  case Nil
  then show ?case by simp
next
  case (Cons v vs)
  from Cons.prems obtain st1 where
    s1: "consider_prev E stopIfVisited path front v st = Inr st1" and
    s2: "consider_all E stopIfVisited path front vs st1 = Inr st'"
    by (auto split: sum.splits)
  from Cons.IH[OF s2] consider_prev_toReturn[OF s1] show ?case by simp
qed

lemma consider_prev_ok:
  assumes "node_id v \<noteq> 0 \<longrightarrow> get_edge E (to_right_side E v) (to_left_side E front) \<noteq> None"
  shows "\<exists>st'. consider_prev E stopIfVisited path front v st = Inr st'"
  using assms
  by (cases "node_id v = 0")
     (auto simp: consider_prev_def Let_def split: option.splits bool.splits)

lemma consider_all_ok:
  assumes "\<forall>v \<in> set vs. node_id v \<noteq> 0
             \<longrightarrow> get_edge E (to_right_side E v) (to_left_side E front) \<noteq> None"
  shows "\<exists>st'. consider_all E stopIfVisited path front vs st = Inr st'"
  using assms
proof (induction vs arbitrary: st)
  case Nil
  then show ?case by simp
next
  case (Cons v vs)
  from Cons.prems consider_prev_ok[of v E front stopIfVisited path st] obtain st1 where
    "consider_prev E stopIfVisited path front v st = Inr st1" by auto
  moreover from Cons.IH[of st1] Cons.prems obtain st' where
    "consider_all E stopIfVisited path front vs st1 = Inr st'" by auto
  ultimately show ?case by simp
qed

lemma bfs_left_two_hops:
  assumes depth: "max_depth E = 1" and seed: "\<not> anchored index visit"
    and prev: "\<forall>v \<in> set (visits_left E visit in_snarl).
                 \<not> anchored index v
                 \<and> (node_id v \<noteq> 0
                      \<longrightarrow> get_edge E (to_right_side E v) (to_left_side E visit) \<noteq> None)"
  shows "bfs_left E visit index stopIfVisited in_snarl = Inr {}"
proof -
  let ?st0 = "dequeue (bfs_initial visit)"
  from prev consider_all_ok[of "visits_left E visit in_snarl" E visit stopIfVisited "[visit]" ?st0]
  obtain st1 where
    s1: "consider_all E stopIfVisited [visit] visit (visits_left E visit in_snarl) ?st0 = Inr st1"
    by auto
  have step: "bfs_step E index stopIfVisited in_snarl [visit] ?st0 = Inr st1"
    using bfs_step_extend[of "[visit]" index E stopIfVisited in_snarl ?st0] seed depth s1
    by simp
  from consider_all_queue[OF s1] obtain news where
    n: "toExtend st1 = toExtend ?st0 @ news"
       "\<forall>p \<in> set news. \<exists>v \<in> set (visits_left E visit in_snarl). p = v # [visit]"
    by blast
  have "toExtend ?st0 = []" by (simp add: dequeue_def bfs_initial_def)
  with n prev depth
  have deep: "list_all (\<lambda>p. p \<noteq> [] \<and> \<not> anchored index (hd p) \<and> max_depth E < length p)
                (toExtend st1)"
    by (auto simp: list_all_iff)
  have "toReturn st1 = {}"
    using consider_all_toReturn[OF s1] by (simp add: dequeue_def bfs_initial_def)
  with bfs_loop_too_deep[OF deep, of stopIfVisited in_snarl]
  have "bfs_loop E index stopIfVisited in_snarl st1 = Inr {}" by simp
  moreover have "toExtend (bfs_initial visit) = [visit] # []"
    by (simp add: bfs_initial_def)
  ultimately show ?thesis
    unfolding bfs_left_def by (simp add: bfs_loop_cons step)
qed

lemma bfs_left_found:
  assumes "bfs_left E visit index stopIfVisited in_snarl = Inr found"
  shows "\<forall>lp \<in> found. found_path E index visit lp"
  using bfs_loop_inv[OF bfs_inv_initial assms[unfolded bfs_left_def]] .

lemma test_left_paths_no_left:
  "testCombinations E index edge_based [] rightList = Inr (Support_default, [])"
  by (simp add: testCombinations_def)

lemma find_bubble_no_left_paths:
  assumes "seed_visits E node_seed edge_seed snarl_seed site = Inr (left_visit, right_visit)"
    and "bfs_left E left_visit index False (Some (manage E site)) = Inr {}"
    and "bfs_right E right_visit index False (Some (manage E site)) = Inr rightPaths"
    and "paths_in_order E {} = []"
  shows "find_bubble E node_seed edge_seed snarl_seed index site = Inr (Support_default, [])"
  using assms by (simp add: find_bubble_def test_left_paths_no_left)

subsection \<open>bfs\_right mirrors bfs\_left\<close>

lemma reverse_visit_involution [simp]: "reverse_visit (reverse_visit v) = v"
  by (cases v) (simp add: reverse_visit_def)

lemma node_id_reverse_visit [simp]: "node_id (reverse_visit v) = node_id v"
  by (simp add: reverse_visit_def)

lemma reverse_path_involution [simp]:
  "map reverse_visit (rev (map reverse_visit (rev path))) = path"
  by (simp add: rev_map o_def)

lemma flip_path_involution: "flip_path (flip_path lp) = lp"
  by (simp add: flip_path_def)

lemma fold_bp_length:
  "fold (\<lambda>visit len. if node_id visit \<noteq> 0
                      then len + length (sequence (get_node E (node_id visit))) else len)
        path acc
   = acc + sum_list (map (\<lambda>visit. if node_id visit \<noteq> 0
                                    then length (sequence (get_node E (node_id visit))) else 0)
                         path)"
  by (induction path arbitrary: acc) simp_all

lemma bp_length_sum:
  "bp_length E path
   = sum_list (map (\<lambda>visit. if node_id visit \<noteq> 0
                             then length (sequence (get_node E (node_id visit))) else 0) path)"
  by (simp add: bp_length_def fold_bp_length)

lemma bp_length_reverse_path: "bp_length E (map reverse_visit (rev path)) = bp_length E path"
  by (simp add: bp_length_sum o_def rev_map[symmetric] sum_list_rev cong: if_cong)

text \<open>
  C10: whatever the visit, the index, the flag and the enclosing snarl, \<^verbatim>\<open>bfs_right\<close>
  fails exactly as \<^verbatim>\<open>bfs_left\<close> on the reversed visit fails, and otherwise returns the
  set of that search's results with every path reversed and every visit in it reversed,
  under the same length. Mirroring twice gives the left search's set back, and the stored
  length is the base-pair length of the path before and after mirroring.
\<close>

theorem bfs_right_mirrors_bfs_left:
  fixes E :: "('a::{plus,zero}) FinderEnv"
  shows
    "(\<forall>e. bfs_left E (reverse_visit visit) index stopIfVisited in_snarl = Inl e
          \<longrightarrow> bfs_right E visit index stopIfVisited in_snarl = Inl e)
   \<and> (\<forall>toConvert. bfs_left E (reverse_visit visit) index stopIfVisited in_snarl = Inr toConvert
          \<longrightarrow> bfs_right E visit index stopIfVisited in_snarl
                = Inr ((\<lambda>(len, path). (len, map reverse_visit (rev path))) ` toConvert)
            \<and> (\<lambda>(len, path). (len, map reverse_visit (rev path)))
                  ` ((\<lambda>(len, path). (len, map reverse_visit (rev path))) ` toConvert)
                = toConvert
            \<and> (\<forall>(len, path) \<in> toConvert.
                  len = bp_length E path
                  \<and> bp_length E (map reverse_visit (rev path)) = len))"
proof -
  have flip: "flip_path = (\<lambda>(len, path). (len, map reverse_visit (rev path)))"
    by (auto simp: flip_path_def fun_eq_iff)
  have twice: "flip_path ` (flip_path ` S) = S" for S
    by (simp add: image_image flip_path_involution)
  have lengths: "\<forall>(len, path) \<in> toConvert.
                   len = bp_length E path \<and> bp_length E (map reverse_visit (rev path)) = len"
    if "bfs_left E (reverse_visit visit) index stopIfVisited in_snarl = Inr toConvert"
    for toConvert
    using bfs_left_found[OF that] by (auto simp: found_path_def bp_length_reverse_path)
  show ?thesis
    using twice lengths unfolding flip[symmetric] by (auto simp: bfs_right_def)
qed

lemmas bfs_eval =
  bfs_left_def bfs_right_def bfs_initial_def bfs_loop.simps bfs_step_def dequeue_def
  consider_prev_def bp_length_def flip_path_def reverse_visit_def Let_def
  bubble_env_def bubble_index_def bubble_visits_left_def bubble_arcs_def bubble_get_edge_def
  node_left_side_def node_right_side_def V_def R_def N_def arc_def total_support_def
  Support_default_def snarl_def Snarl_default_def Visit_default_def
  shallow_env_def zero_width_env_def

theorem bfs_right_mirrors_bfs_left_witness:
  "bfs_left bubble_env (reverse_visit (V 3)) bubble_index False (Some 0)
     = Inr {(3, [R 5, R 4, R 3])}
   \<and> bfs_right bubble_env (V 3) bubble_index False (Some 0) = Inr {(3, [V 3, V 4, V 5])}
   \<and> bp_length bubble_env [R 5, R 4, R 3] = 3
   \<and> bp_length bubble_env [V 3, V 4, V 5] = 3"
  using bfs_right_mirrors_bfs_left[of bubble_env "V 3" bubble_index False "Some 0"]
  by (simp add: bfs_eval)

text \<open>
  C4 (as stated, refuted): with \<open>max_width = 0\<close> the queue holds the seed path when the
  search starts, which is more than \<open>max_width\<close>; and no extension slot is available for the
  path dequeued: the search from node 3, one step from the backbone, finds nothing, where
  the same search with \<open>max_width = 10\<close> finds the path through node 1.
\<close>

theorem queue_exceeds_zero_width_counterexample:
  "max_width zero_width_env = 0
   \<and> bfs_after zero_width_env bubble_index False (Some 0) 0 (bfs_initial (V 3))
       = Inr (bfs_initial (V 3))
   \<and> length (toExtend (bfs_initial (V 3))) = 1
   \<and> \<not> length (toExtend (bfs_initial (V 3))) \<le> max_width zero_width_env
   \<and> bfs_left zero_width_env (V 3) bubble_index False (Some 0) = Inr {}
   \<and> bfs_left bubble_env (V 3) bubble_index False (Some 0) = Inr {(2, [V 1, V 3])}"
  by (simp add: bfs_eval)

lemma bfs_step_ok:
  assumes "edges_real E in_snarl" and "path \<noteq> []"
  shows "\<exists>st'. bfs_step E index stopIfVisited in_snarl path st = Inr st'"
proof (cases "anchored index (hd path)")
  case True
  show ?thesis by (simp add: bfs_step_anchored[OF assms(2) True])
next
  case False
  show ?thesis
  proof (cases "length path \<le> max_depth E")
    case True
    from assms(1)
    have "\<forall>v \<in> set (visits_left E (hd path) in_snarl).
            node_id v \<noteq> 0
            \<longrightarrow> get_edge E (to_right_side E v) (to_left_side E (hd path)) \<noteq> None"
      by (simp add: edges_real_def)
    from consider_all_ok[OF this]
    show ?thesis by (simp add: bfs_step_extend[OF assms(2) False True])
  next
    case deep: False
    then have "max_depth E < length path" by simp
    show ?thesis by (simp add: bfs_step_too_deep[OF assms(2) False \<open>max_depth E < length path\<close>])
  qed
qed

lemma bfs_loop_ok:
  assumes "edges_real E in_snarl" and "bfs_inv E index visit st"
  shows "\<exists>found. bfs_loop E index stopIfVisited in_snarl st = Inr found"
  using assms
proof (induction E index stopIfVisited in_snarl st rule: bfs_loop.induct)
  case (1 E index stopIfVisited in_snarl st)
  show ?case
  proof (cases "toExtend st")
    case Nil
    then show ?thesis by (simp add: bfs_loop.simps[of E index stopIfVisited in_snarl st])
  next
    case (Cons path rest)
    from bfs_inv_dequeue(2)[OF "1.prems"(2) Cons] have ne: "path \<noteq> []"
      by (simp add: partial_path_def)
    from bfs_step_ok[OF "1.prems"(1) ne] obtain st1 where
      s1: "bfs_step E index stopIfVisited in_snarl path (dequeue st) = Inr st1" by blast
    from "1.IH"[OF Cons s1 "1.prems"(1) bfs_step_inv[OF "1.prems"(2) Cons s1]]
    show ?thesis by (simp add: bfs_loop_cons[OF Cons] s1)
  qed
qed

lemma bfs_left_ok:
  assumes "edges_real E in_snarl"
  shows "\<exists>found. bfs_left E visit index stopIfVisited in_snarl = Inr found"
  unfolding bfs_left_def by (rule bfs_loop_ok[OF assms bfs_inv_initial])

lemma bfs_right_ok:
  assumes "edges_real E in_snarl"
  shows "\<exists>found. bfs_right E visit index stopIfVisited in_snarl = Inr found"
  using bfs_left_ok[OF assms, of "reverse_visit visit" index stopIfVisited]
  by (auto simp: bfs_right_def)

lemma edges_real_bubble: "edges_real bubble_env in_snarl"
  unfolding edges_real_def
  by (auto simp: bubble_env_def bubble_visits_left_def bubble_get_edge_def bubble_arcs_def
        node_left_side_def node_right_side_def V_def R_def)

lemma edges_real_shallow: "edges_real shallow_env in_snarl"
  using edges_real_bubble[of in_snarl] by (simp add: edges_real_def shallow_env_def)

text \<open>
  C4 (amended): in the bounded bubble search the seed path is queued before any width is
  checked. At every turn of the loop
  \<^item> the counter \<open>stillToExtend\<close> is the number of queued partial paths, and when
    \<open>max_width\<close> is at least 1 that number never exceeds \<open>max_width\<close>;
  \<^item> the dequeued path is emitted, and not extended, exactly when its front visit anchors
    on the backbone; otherwise it is dropped without any failure when it has more than
    \<open>max_depth\<close> visits, and handed to the extension loop when it has at most
    \<open>max_depth\<close>;
  \<^item> when \<open>max_width\<close> is at least 1, the counter is below \<open>max_width\<close> after each dequeue,
    so an extension slot is available.
  Every path the leftward search returns is anchored at its front and nowhere behind it,
  ends in the seed visit, has at most \<open>max_depth\<close> steps, and carries its base-pair length.
  On a graph where every node visit that \<^verbatim>\<open>visits_left\<close> lists is joined by an edge, neither
  search fails. On such a graph, with \<open>max_depth = 1\<close>, a seed of any kind (node, edge or
  child snarl) whose left search visit is not anchored and has no anchored left neighbour
  gets an empty result from the leftward search and the empty bubble path from
  \<^verbatim>\<open>find_bubble\<close>, not a failure (iterating the empty set of paths visits nothing).
\<close>

theorem bounded_bubble_search:
  fixes E :: "('a::{ord,plus,zero}) FinderEnv"
  shows
    "toExtend (bfs_initial visit) = [[visit]]
   \<and> (\<forall>n st. bfs_after E index stopIfVisited in_snarl n (bfs_initial visit) = Inr st \<longrightarrow>
         stillToExtend st = length (toExtend st)
       \<and> (1 \<le> max_width E \<longrightarrow> length (toExtend st) \<le> max_width E)
       \<and> (\<forall>path rest. toExtend st = path # rest \<longrightarrow>
             path \<noteq> [] \<and> 0 < stillToExtend st
           \<and> (anchored index (hd path) \<longrightarrow>
                bfs_step E index stopIfVisited in_snarl path (dequeue st)
                = Inr ((dequeue st)\<lparr>toReturn :=
                         insert (bp_length E path, path) (toReturn st)\<rparr>))
           \<and> (\<not> anchored index (hd path) \<and> max_depth E < length path \<longrightarrow>
                bfs_step E index stopIfVisited in_snarl path (dequeue st) = Inr (dequeue st))
           \<and> (\<not> anchored index (hd path) \<and> length path \<le> max_depth E \<longrightarrow>
                bfs_step E index stopIfVisited in_snarl path (dequeue st)
                = consider_all E stopIfVisited path (hd path)
                    (visits_left E (hd path) in_snarl) (dequeue st))
           \<and> (1 \<le> max_width E \<longrightarrow> stillToExtend (dequeue st) < max_width E)))
   \<and> (\<forall>found. bfs_left E visit index stopIfVisited in_snarl = Inr found \<longrightarrow>
         (\<forall>(len, path) \<in> found.
            anchored index (hd path) \<and> list_all (\<lambda>v. \<not> anchored index v) (tl path)
            \<and> length path \<le> Suc (max_depth E) \<and> last path = visit
            \<and> len = bp_length E path))
   \<and> (edges_real E in_snarl \<longrightarrow>
         (\<exists>found. bfs_left E visit index stopIfVisited in_snarl = Inr found)
       \<and> (\<exists>found. bfs_right E visit index stopIfVisited in_snarl = Inr found))
   \<and> (edges_real E (Some (manage E site)) \<and> max_depth E = 1
       \<and> seed_visits E node_seed edge_seed snarl_seed site = Inr (left_visit, right_visit)
       \<and> \<not> anchored index left_visit
       \<and> (\<forall>v \<in> set (visits_left E left_visit (Some (manage E site))). \<not> anchored index v)
       \<and> paths_in_order E {} = []
       \<longrightarrow> bfs_left E left_visit index False (Some (manage E site)) = Inr {}
           \<and> find_bubble E node_seed edge_seed snarl_seed index site
             = Inr (Support_default, []))"
proof (intro conjI allI impI)
  show "toExtend (bfs_initial visit) = [[visit]]" by (simp add: bfs_initial_def)
next
  fix n st
  assume run: "bfs_after E index stopIfVisited in_snarl n (bfs_initial visit) = Inr st"
  note inv = bfs_after_inv[OF bfs_inv_initial run]
  show "stillToExtend st = length (toExtend st)"
    using inv by (simp add: bfs_inv_def)
  {
    assume "1 \<le> max_width E"
    with inv show "length (toExtend st) \<le> max_width E" by (simp add: bfs_inv_def)
  }
  fix path rest
  assume q: "toExtend st = path # rest"
  note d = bfs_inv_dequeue[OF inv q]
  from d(2) show ne: "path \<noteq> []" by (simp add: partial_path_def)
  from inv q show "0 < stillToExtend st" by (simp add: bfs_inv_def)
  {
    assume "anchored index (hd path)"
    moreover have "toReturn (dequeue st) = toReturn st" by (simp add: dequeue_def)
    ultimately
    show "bfs_step E index stopIfVisited in_snarl path (dequeue st)
          = Inr ((dequeue st)\<lparr>toReturn := insert (bp_length E path, path) (toReturn st)\<rparr>)"
      using bfs_step_anchored[OF ne, of index E stopIfVisited in_snarl "dequeue st"] by simp
  }
  {
    assume "\<not> anchored index (hd path) \<and> max_depth E < length path"
    then show "bfs_step E index stopIfVisited in_snarl path (dequeue st) = Inr (dequeue st)"
      using bfs_step_too_deep[OF ne, of index E stopIfVisited in_snarl "dequeue st"] by blast
  }
  {
    assume "\<not> anchored index (hd path) \<and> length path \<le> max_depth E"
    then show "bfs_step E index stopIfVisited in_snarl path (dequeue st)
          = consider_all E stopIfVisited path (hd path) (visits_left E (hd path) in_snarl)
              (dequeue st)"
      using bfs_step_extend[OF ne, of index E stopIfVisited in_snarl "dequeue st"] by blast
  }
  {
    assume "1 \<le> max_width E"
    from d(4)[OF this] show "stillToExtend (dequeue st) < max_width E" .
  }
next
  fix found
  assume "bfs_left E visit index stopIfVisited in_snarl = Inr found"
  from bfs_left_found[OF this]
  show "\<forall>(len, path) \<in> found.
          anchored index (hd path) \<and> list_all (\<lambda>v. \<not> anchored index v) (tl path)
          \<and> length path \<le> Suc (max_depth E) \<and> last path = visit \<and> len = bp_length E path"
    by (auto simp: found_path_def partial_path_def)
next
  assume real: "edges_real E in_snarl"
  show "\<exists>found. bfs_left E visit index stopIfVisited in_snarl = Inr found"
    by (rule bfs_left_ok[OF real])
  show "\<exists>found. bfs_right E visit index stopIfVisited in_snarl = Inr found"
    by (rule bfs_right_ok[OF real])
next
  let ?in_snarl = "Some (manage E site)"
  assume a: "edges_real E ?in_snarl \<and> max_depth E = 1
       \<and> seed_visits E node_seed edge_seed snarl_seed site = Inr (left_visit, right_visit)
       \<and> \<not> anchored index left_visit
       \<and> (\<forall>v \<in> set (visits_left E left_visit ?in_snarl). \<not> anchored index v)
       \<and> paths_in_order E {} = []"
  then have "\<forall>v \<in> set (visits_left E left_visit ?in_snarl).
               \<not> anchored index v
               \<and> (node_id v \<noteq> 0
                    \<longrightarrow> get_edge E (to_right_side E v) (to_left_side E left_visit) \<noteq> None)"
    by (simp add: edges_real_def)
  with a have left: "bfs_left E left_visit index False ?in_snarl = Inr {}"
    using bfs_left_two_hops[of E index left_visit ?in_snarl False] by blast
  then show "bfs_left E left_visit index False ?in_snarl = Inr {}" .
  from a bfs_right_ok[of E ?in_snarl right_visit index False] obtain rightPaths where
    right: "bfs_right E right_visit index False ?in_snarl = Inr rightPaths" by blast
  from a have "seed_visits E node_seed edge_seed snarl_seed site = Inr (left_visit, right_visit)"
    and "paths_in_order E {} = []" by simp_all
  from find_bubble_no_left_paths[OF this(1) left right this(2)]
  show "find_bubble E node_seed edge_seed snarl_seed index site = Inr (Support_default, [])" .
qed

theorem bounded_bubble_search_witness:
  "max_depth shallow_env = 1
   \<and> bfs_after bubble_env bubble_index False (Some 0) 1 (bfs_initial (V 4))
       = Inr \<lparr>toExtend = [[V 3, V 4]], stillToExtend = 1, alreadyQueued = {V 3, V 4},
              toReturn = {}\<rparr>
   \<and> bfs_left bubble_env (V 4) bubble_index False (Some 0) = Inr {(3, [V 1, V 3, V 4])}
   \<and> visits_left shallow_env (V 4) (Some 0) = [V 3]
   \<and> bfs_right shallow_env (V 4) bubble_index False (Some 0) = Inr {(2, [V 4, V 5])}
   \<and> bfs_left shallow_env (V 4) bubble_index False (Some 0) = Inr {}
   \<and> find_bubble shallow_env (Some (N 4)) None None bubble_index bubble_site
       = Inr (Support_default, [])
   \<and> find_bubble shallow_env None (Some (arc (4, 5))) None bubble_index bubble_site
       = Inr (Support_default, [])
   \<and> find_bubble shallow_env None None (Some 0) bubble_index bubble_site
       = Inr (Support_default, [])"
proof -
  note search = bounded_bubble_search[where E = shallow_env and index = bubble_index
      and site = bubble_site and stopIfVisited = False and in_snarl = "Some 0"
      and visit = "V 4"]
  have real: "edges_real shallow_env (Some (manage shallow_env bubble_site))"
    by (rule edges_real_shallow)
  have depth: "max_depth shallow_env = 1" and order: "paths_in_order shallow_env {} = []"
    by (simp_all add: bfs_eval)
  have node_seed: "seed_visits shallow_env (Some (N 4)) None None bubble_site = Inr (V 4, V 4)"
    and edge_seed: "seed_visits shallow_env None (Some (arc (4, 5))) None bubble_site
                    = Inr (V 4, V 5)"
    and child_seed: "seed_visits shallow_env None None (Some 0) bubble_site
                     = Inr (Visit 0 (Some Snarl_default) False,
                            Visit 0 (Some Snarl_default) False)"
    by (simp_all add: seed_visits_def child_visit_for_def to_visit_def to_visit_snarl_def
          bfs_eval)
  have far: "\<not> anchored bubble_index (V 4)"
    "\<forall>v \<in> set (visits_left shallow_env (V 4) (Some (manage shallow_env bubble_site))).
       \<not> anchored bubble_index v"
    "\<not> anchored bubble_index (Visit 0 (Some Snarl_default) False)"
    "\<forall>v \<in> set (visits_left shallow_env (Visit 0 (Some Snarl_default) False)
                  (Some (manage shallow_env bubble_site))).
       \<not> anchored bubble_index v"
    by (simp_all add: anchored_def bfs_eval)
  from search[where node_seed = "Some (N 4)" and edge_seed = None and snarl_seed = None
         and left_visit = "V 4" and right_visit = "V 4"]
       real depth order node_seed far
  have n: "bfs_left shallow_env (V 4) bubble_index False (Some (manage shallow_env bubble_site))
           = Inr {}
         \<and> find_bubble shallow_env (Some (N 4)) None None bubble_index bubble_site
           = Inr (Support_default, [])"
    by blast
  from search[where node_seed = None and edge_seed = "Some (arc (4, 5))" and snarl_seed = None
         and left_visit = "V 4" and right_visit = "V 5"]
       real depth order edge_seed far
  have e: "find_bubble shallow_env None (Some (arc (4, 5))) None bubble_index bubble_site
           = Inr (Support_default, [])"
    by blast
  from search[where node_seed = None and edge_seed = None and snarl_seed = "Some 0"
         and left_visit = "Visit 0 (Some Snarl_default) False"
         and right_visit = "Visit 0 (Some Snarl_default) False"]
       real depth order child_seed far
  have c: "find_bubble shallow_env None None (Some 0) bubble_index bubble_site
           = Inr (Support_default, [])"
    by blast
  have m: "manage shallow_env bubble_site = 0" by (simp add: bfs_eval)
  from n e c m show ?thesis by (simp add: bfs_eval)
qed

section \<open>find\_traversals: results\<close>

subsection \<open>No later step fails as the precondition check does\<close>

lemma consider_prev_failure:
  "consider_prev E stopIfVisited path front v st = Inl e \<Longrightarrow> e \<noteq> precondition_failure"
  by (auto simp: consider_prev_def precondition_failure_def Let_def
           split: if_splits option.splits sum.splits bool.splits)

lemma consider_all_failure:
  "consider_all E stopIfVisited path front vs st = Inl e \<Longrightarrow> e \<noteq> precondition_failure"
proof (induction vs arbitrary: st)
  case Nil
  then show ?case by simp
next
  case (Cons v vs)
  then show ?case
    by (cases "consider_prev E stopIfVisited path front v st")
       (auto dest: consider_prev_failure)
qed

lemma bfs_step_failure:
  "bfs_step E index stopIfVisited in_snarl path st = Inl e \<Longrightarrow> e \<noteq> precondition_failure"
  by (cases path)
     (auto simp: bfs_step_def precondition_failure_def split: if_splits
           dest: consider_all_failure[unfolded precondition_failure_def])

lemma bfs_loop_failure:
  "bfs_loop E index stopIfVisited in_snarl st = Inl e \<Longrightarrow> e \<noteq> precondition_failure"
proof (induction E index stopIfVisited in_snarl st rule: bfs_loop.induct)
  case (1 E index stopIfVisited in_snarl st)
  show ?case
  proof (cases "toExtend st")
    case Nil
    with "1.prems" show ?thesis by (simp add: bfs_loop.simps[of E index stopIfVisited in_snarl st])
  next
    case (Cons path rest)
    show ?thesis
    proof (cases "bfs_step E index stopIfVisited in_snarl path (dequeue st)")
      case (Inl e')
      with "1.prems" Cons have "e = e'" by (simp add: bfs_loop_cons)
      with bfs_step_failure[OF Inl] show ?thesis by simp
    next
      case (Inr st')
      with "1.prems" Cons have "bfs_loop E index stopIfVisited in_snarl st' = Inl e"
        by (simp add: bfs_loop_cons)
      from "1.IH"[OF Cons Inr this] show ?thesis .
    qed
  qed
qed

lemma bfs_left_failure:
  "bfs_left E visit index stopIfVisited in_snarl = Inl e \<Longrightarrow> e \<noteq> precondition_failure"
  unfolding bfs_left_def by (rule bfs_loop_failure)

lemma bfs_right_failure:
  "bfs_right E visit index stopIfVisited in_snarl = Inl e \<Longrightarrow> e \<noteq> precondition_failure"
  by (auto simp: bfs_right_def split: sum.splits dest: bfs_left_failure)

lemma child_visit_for_failure:
  assumes "child_visit_for E side assertion managed_site visit = Inl e"
  shows "e = AssertionFailure assertion"
  using assms
  by (auto simp: child_visit_for_def Let_def split: option.splits if_splits)

lemma seed_visits_failure:
  assumes "seed_visits E node_seed edge_seed snarl_seed site = Inl e"
  shows "e \<noteq> precondition_failure"
proof (cases edge_seed)
  case (Some edge)
  with assms show ?thesis
    by (auto simp: seed_visits_def Let_def precondition_failure_def split: sum.splits
             dest: child_visit_for_failure)
next
  case None
  with assms show ?thesis
    by (auto simp: seed_visits_def Let_def precondition_failure_def split: option.splits)
qed

lemma try_right_path_failure:
  "try_right_path E index edge_based leftPath leftRefPos rightPath st = Inl e
   \<Longrightarrow> e \<noteq> precondition_failure"
  by (auto simp: try_right_path_def precondition_failure_def split: if_splits option.splits)

lemma test_right_paths_failure:
  "test_right_paths E index edge_based leftPath leftRefPos rightList st = Inl e
   \<Longrightarrow> e \<noteq> precondition_failure"
proof (induction rightList arbitrary: st)
  case Nil
  then show ?case by simp
next
  case (Cons rightPath rest)
  show ?case
  proof (cases "try_right_path E index edge_based leftPath leftRefPos rightPath st")
    case (Inl e')
    with Cons.prems try_right_path_failure[OF Inl] show ?thesis by simp
  next
    case (Inr r)
    with Cons.prems Cons.IH[of "fst r"] show ?thesis
      by (cases r; cases "snd r") auto
  qed
qed

lemma test_left_paths_failure:
  "test_left_paths E index edge_based leftList rightList st = Inl e
   \<Longrightarrow> e \<noteq> precondition_failure"
proof (induction leftList arbitrary: st)
  case Nil
  then show ?case by simp
next
  case (Cons leftPath rest)
  show ?case
  proof (cases "leftPath = []")
    case True
    with Cons.prems show ?thesis by (simp add: precondition_failure_def)
  next
    case ne: False
    show ?thesis
    proof (cases "by_id index (node (to_left_side E (hd leftPath)))")
      case None
      with Cons.prems ne show ?thesis by (simp add: precondition_failure_def)
    next
      case (Some leftRefPos)
      show ?thesis
      proof (cases "test_right_paths E index edge_based leftPath leftRefPos rightList st")
        case (Inl e')
        with Cons.prems ne Some test_right_paths_failure[OF Inl] show ?thesis by simp
      next
        case (Inr r)
        with Cons.prems ne Some Cons.IH[of "fst r"] show ?thesis
          by (cases r; cases "snd r") auto
      qed
    qed
  qed
qed

lemma find_bubble_failure:
  "find_bubble E node_seed edge_seed snarl_seed index site = Inl e
   \<Longrightarrow> e \<noteq> precondition_failure"
  by (auto simp: find_bubble_def testCombinations_def split: sum.splits prod.splits
           dest: seed_visits_failure bfs_left_failure bfs_right_failure
                 test_left_paths_failure)

lemma splice_before_failure:
  "splice_before ref_path path = Inl e \<Longrightarrow> e \<noteq> precondition_failure"
  by (auto simp: splice_before_def precondition_failure_def Let_def
           split: if_splits option.splits)

lemma find_right_anchor_failure:
  "find_right_anchor site ref_path bubble_last i = Inl e \<Longrightarrow> e \<noteq> precondition_failure"
  by (auto simp: find_right_anchor_def precondition_failure_def split: option.splits)

lemma splice_after_failure:
  "splice_after ref_path extended_path i = Inl e \<Longrightarrow> e \<noteq> precondition_failure"
  by (auto simp: splice_after_def precondition_failure_def Let_def split: if_splits)

lemma extend_into_allele_failure:
  assumes "extend_into_allele E site contents_nodes ref_path path = Inl e"
  shows "e \<noteq> precondition_failure"
proof (cases "\<exists>visit \<in> set path.
                 node_id visit \<noteq> 0 \<and> get_node E (node_id visit) \<notin> set contents_nodes")
  case True
  with assms show ?thesis by (auto simp: extend_into_allele_def precondition_failure_def)
next
  case False
  show ?thesis
  proof (cases "splice_before ref_path path")
    case (Inl e')
    with assms False splice_before_failure[OF Inl] show ?thesis
      by (simp add: extend_into_allele_def)
  next
    case (Inr r)
    obtain extended_path i where r: "r = (extended_path, i)" by (cases r)
    show ?thesis
    proof (cases "find_right_anchor site ref_path (last path) i")
      case (Inl e')
      with assms False Inr r find_right_anchor_failure[OF Inl] show ?thesis
        by (simp add: extend_into_allele_def)
    next
      case (Inr i')
      with assms False \<open>splice_before ref_path path = Inr r\<close> r
      have "splice_after ref_path extended_path i' = Inl e"
        by (simp add: extend_into_allele_def)
      then show ?thesis by (rule splice_after_failure)
    qed
  qed
qed

lemma add_bubble_failure:
  "add_bubble E index site contents_nodes ref_path
     (find_bubble E node_seed edge_seed snarl_seed index site) S = Inl e
   \<Longrightarrow> e \<noteq> precondition_failure"
  by (auto simp: add_bubble_def split: sum.splits prod.splits if_splits
           dest: find_bubble_failure extend_into_allele_failure)

lemma node_seeds_failure:
  "node_seeds E index site contents_nodes ref_path ns S = Inl e \<Longrightarrow> e \<noteq> precondition_failure"
proof (induction ns arbitrary: S)
  case Nil
  then show ?case by simp
next
  case (Cons n ns)
  show ?case
  proof (cases "add_bubble E index site contents_nodes ref_path
                  (find_bubble E (Some n) None None index site) S")
    case (Inl e')
    from add_bubble_failure[OF Inl] Cons.prems Cons.IH[of S] Inl show ?thesis
      by (auto split: if_splits)
  next
    case (Inr S')
    with Cons.prems Cons.IH[of S] Cons.IH[of S'] show ?thesis
      by (auto split: if_splits)
  qed
qed

lemma edge_seeds_failure:
  "edge_seeds E index site contents_nodes ref_path es S = Inl e \<Longrightarrow> e \<noteq> precondition_failure"
proof (induction es arbitrary: S)
  case Nil
  then show ?case by simp
next
  case (Cons edge es)
  show ?case
  proof (cases "add_bubble E index site contents_nodes ref_path
                  (find_bubble E None (Some edge) None index site) S")
    case (Inl e')
    from add_bubble_failure[OF Inl] Cons.prems Cons.IH[of S] Inl show ?thesis
      by (auto split: if_splits)
  next
    case (Inr S')
    with Cons.prems Cons.IH[of S] Cons.IH[of S'] show ?thesis
      by (auto split: if_splits)
  qed
qed

lemma child_seeds_failure:
  "child_seeds E index site contents_nodes ref_path cs S = Inl e \<Longrightarrow> e \<noteq> precondition_failure"
proof (induction cs arbitrary: S)
  case Nil
  then show ?case by simp
next
  case (Cons child cs)
  show ?case
  proof (cases "add_bubble E index site contents_nodes ref_path
                  (find_bubble E None None (Some child) index site) S")
    case (Inl e')
    from add_bubble_failure[OF Inl] Cons.prems Inl show ?thesis by simp
  next
    case (Inr S')
    with Cons.prems Cons.IH[of S'] show ?thesis by simp
  qed
qed

lemma site_traversals_failure:
  "site_traversals E index site ref_path = Inl e \<Longrightarrow> e \<noteq> precondition_failure"
  by (auto simp: site_traversals_def Let_def split: sum.splits
           dest: node_seeds_failure edge_seeds_failure child_seeds_failure)

lemma skip_child_failure:
  fixes E :: "('a, 'b) FinderEnv_scheme"
  assumes "skip_child E index contents_nodes found_first here = Some y"
  shows "\<forall>e. y = Inl e \<longrightarrow> e \<noteq> precondition_failure"
proof (rule skip_child.raw_induct[OF _ assms])
  fix f :: "('a, 'b) FinderEnv_scheme \<Rightarrow> PathIndex \<Rightarrow> Node list \<Rightarrow> nat \<Rightarrow> Node
              \<Rightarrow> (error + (nat \<times> nat \<times> Visit \<times> Node)) option"
    and E :: "('a, 'b) FinderEnv_scheme"
    and index contents_nodes found_first here y
  assume IH: "\<And>E index contents_nodes found_first here y.
                f E index contents_nodes found_first here = Some y
                \<Longrightarrow> \<forall>e. y = Inl e \<longrightarrow> e \<noteq> precondition_failure"
    and body: "(let ref_node_start' = size_t_add found_first (length (sequence here))
      in case lower_bound (by_start index) ref_node_start' of
           None \<Rightarrow> Some (Inl (AssertionFailure ''found != index.by_start.end()''))
         | Some found \<Rightarrow>
             (let found_visit = snd found;
                  here' = get_node E (node_id found_visit)
              in if here' \<notin> set contents_nodes
                 then f E index contents_nodes (fst found) here'
                 else Some (Inr (ref_node_start', fst found, found_visit, here')))) = Some y"
  show "\<forall>e. y = Inl e \<longrightarrow> e \<noteq> precondition_failure"
  proof (cases "lower_bound (by_start index) (size_t_add found_first (length (sequence here)))")
    case None
    with body show ?thesis by (auto simp: precondition_failure_def)
  next
    case (Some found)
    show ?thesis
    proof (cases "get_node E (node_id (snd found)) \<notin> set contents_nodes")
      case True
      with body Some have "f E index contents_nodes (fst found) (get_node E (node_id (snd found)))
                           = Some y" by (simp add: Let_def)
      from IH[OF this] show ?thesis .
    next
      case False
      with body Some show ?thesis by (auto simp: Let_def)
    qed
  qed
qed

lemma enter_child_failure:
  "enter_child E index contents_nodes st found_first found_visit child = Some (Inl e)
   \<Longrightarrow> e \<noteq> precondition_failure"
  by (auto simp: enter_child_def Let_def precondition_failure_def
           split: if_splits option.splits sum.splits prod.splits
           dest: skip_child_failure[unfolded precondition_failure_def])

lemma trace_loop_failure:
  fixes E :: "('a, 'b) FinderEnv_scheme"
  assumes "trace_loop E index site contents_nodes primary_max st = Some y"
  shows "\<forall>e. y = Inl e \<longrightarrow> e \<noteq> precondition_failure"
proof (rule trace_loop.raw_induct[OF _ assms])
  fix f :: "('a, 'b) FinderEnv_scheme \<Rightarrow> PathIndex \<Rightarrow> Snarl \<Rightarrow> Node list \<Rightarrow> nat \<Rightarrow> trace_state
              \<Rightarrow> (error + trace_state) option"
    and E :: "('a, 'b) FinderEnv_scheme"
    and index site contents_nodes primary_max st y
  assume IH: "\<And>E index site contents_nodes primary_max st y.
                f E index site contents_nodes primary_max st = Some y
                \<Longrightarrow> \<forall>e. y = Inl e \<longrightarrow> e \<noteq> precondition_failure"
  assume "(if ref_node_start st \<le> primary_max then
        (case lower_bound (by_start index) (ref_node_start st) of
           None \<Rightarrow>
             Some (Inl (RuntimeError ''No backbone node found when tracing through site!''))
         | Some found \<Rightarrow>
             if fst found > primary_max then Some (Inr st)
             else
               (let found_visit = snd found;
                    visited_node = get_node E (node_id found_visit)
                in case into_which_snarl E found_visit of
                     None \<Rightarrow>
                       f E index site contents_nodes primary_max
                         (st\<lparr>nodes_left := removeAll visited_node (nodes_left st),
                             ref_path_for_site := ref_path_for_site st @ [found_visit],
                             ref_node_start :=
                               size_t_add (fst found) (length (sequence visited_node))\<rparr>)
                   | Some child \<Rightarrow>
                       if child \<noteq> manage E site
                          \<and> into_which_snarl E (reverse_visit found_visit)
                              \<noteq> Some (manage E site)
                       then
                         (case enter_child E index contents_nodes st (fst found) found_visit
                                 child of
                            None \<Rightarrow> None
                          | Some (Inl e) \<Rightarrow> Some (Inl e)
                          | Some (Inr st') \<Rightarrow>
                              f E index site contents_nodes primary_max st')
                       else
                         f E index site contents_nodes primary_max
                           (st\<lparr>nodes_left := removeAll visited_node (nodes_left st),
                               ref_path_for_site := ref_path_for_site st @ [found_visit],
                               ref_node_start :=
                                 size_t_add (fst found) (length (sequence visited_node))\<rparr>)))
      else Some (Inr st)) = Some y"
  note body = this
  show "\<forall>e. y = Inl e \<longrightarrow> e \<noteq> precondition_failure"
  proof (cases "ref_node_start st \<le> primary_max")
    case False
    with body show ?thesis by auto
  next
    case le: True
    show ?thesis
    proof (cases "lower_bound (by_start index) (ref_node_start st)")
      case None
      with body le show ?thesis by (auto simp: precondition_failure_def)
    next
      case (Some found)
      show ?thesis
      proof (cases "fst found > primary_max")
        case True
        with body le Some show ?thesis by auto
      next
        case inside: False
        show ?thesis
        proof (cases "into_which_snarl E (snd found)")
          case None
          with body le Some inside
          have "\<exists>st'. f E index site contents_nodes primary_max st' = Some y"
            by (auto simp: Let_def)
          with IH show ?thesis by blast
        next
          case child: (Some child)
          show ?thesis
          proof (cases "child \<noteq> manage E site
                        \<and> into_which_snarl E (reverse_visit (snd found)) \<noteq> Some (manage E site)")
            case False
            with body le Some inside child
            have "\<exists>st'. f E index site contents_nodes primary_max st' = Some y"
              by (auto simp: Let_def)
            with IH show ?thesis by blast
          next
            case True
            show ?thesis
            proof (cases "enter_child E index contents_nodes st (fst found) (snd found) child")
              case None
              with body le Some inside child True show ?thesis by (simp add: Let_def)
            next
              case entered: (Some r)
              show ?thesis
              proof (cases r)
                case (Inl e')
                with body le Some inside child True entered have "y = Inl e'"
                  by (simp add: Let_def)
                with enter_child_failure[of E index contents_nodes st "fst found" "snd found"
                       child e'] entered Inl
                show ?thesis by simp
              next
                case (Inr st')
                with body le Some inside child True entered
                have "f E index site contents_nodes primary_max st' = Some y"
                  by (simp add: Let_def)
                from IH[OF this] show ?thesis .
              qed
            qed
          qed
        qed
      qed
    qed
  qed
qed

lemma trace_ref_path_failure:
  "trace_ref_path E index site contents_nodes site_start site_end = Inl e
   \<Longrightarrow> e \<noteq> precondition_failure"
  by (auto simp: trace_ref_path_def split: option.splits sum.splits if_splits
           dest: trace_loop_failure)
     (simp_all add: precondition_failure_def)

lemma select_index_failure:
  "select_index E site = Inl e \<Longrightarrow> e \<noteq> precondition_failure"
  by (auto simp: select_index_def find_backbone_index_def precondition_failure_def
           split: option.splits if_splits)

lemma site_position_failure:
  "site_position index boundary = Inl e \<Longrightarrow> e \<noteq> precondition_failure"
  by (auto simp: site_position_def precondition_failure_def split: option.splits)

lemma find_traversals_later_failure:
  assumes "type site = ULTRABUBBLE" and "find_traversals E site = Inl e"
  shows "e \<noteq> precondition_failure"
  using assms
  by (auto simp: find_traversals_def split: sum.splits
           dest: select_index_failure site_position_failure trace_ref_path_failure
                 site_traversals_failure)

subsection \<open>Evaluation on the example bubble\<close>

lemmas finder_eval =
  find_traversals_def select_index_def find_backbone_index_def site_position_def
  trace_ref_path_def trace_loop.simps skip_child.simps enter_child_def lower_bound_def
  size_t_add_def
  extra_ref_node_def site_traversals_def add_bubble_def extend_into_allele_def
  splice_before_def splice_after_def find_right_anchor_def left_anchor_matches_def
  right_anchor_matches_def frontier_visit_def unique_traversals_def emit_traversal_def
  find_bubble_def seed_visits_def child_visit_for_def testCombinations_def
  combine_def try_right_path_def
  min_support_in_path_def support_min_def std_min_def to_visit_def to_visit_snarl_def
  bubble_site_def reverse_site_def bubble_paths_def bubble_traversals_def

lemma find_traversals_bubble:
  "find_traversals bubble_env bubble_site = Inr [[V 1, V 2, V 5], [V 1, V 3, V 4, V 5]]"
  by (simp add: finder_eval bfs_eval)

lemma find_traversals_reverse:
  "find_traversals bubble_env reverse_site = Inr [[R 5, R 2, R 1], [R 5, R 4, R 3, R 1]]"
  by (simp add: finder_eval bfs_eval)

lemma site_traversals_bubble:
  "site_traversals bubble_env bubble_index bubble_site [V 1, V 2, V 5]
   = Inr {[V 1, V 2, V 5], [V 1, V 3, V 4, V 5]}"
  by (simp add: finder_eval bfs_eval)





subsection \<open>The precondition\<close>

text \<open>
  C5: on a site whose type is not ULTRABUBBLE, \<^verbatim>\<open>find_traversals\<close> fails with the
  assertion on the type whatever the finder holds (its indexes are not consulted); on an
  ULTRABUBBLE site it never fails with that assertion, whatever else happens.
\<close>

theorem find_traversals_precondition:
  "(type site \<noteq> ULTRABUBBLE \<longrightarrow> find_traversals E site = Inl precondition_failure)
   \<and> (type site = ULTRABUBBLE \<longrightarrow> find_traversals E site \<noteq> Inl precondition_failure)"
  using find_traversals_later_failure[of site E precondition_failure]
  by (auto simp: find_traversals_def precondition_failure_def)

theorem find_traversals_precondition_witness:
  "find_traversals bubble_env (set_type UNARY bubble_site) = Inl precondition_failure
   \<and> find_traversals bubble_env (set_type UNCLASSIFIED reverse_site) = Inl precondition_failure
   \<and> find_traversals bubble_env bubble_site \<noteq> Inl precondition_failure"
  using find_traversals_precondition[of "set_type UNARY bubble_site" bubble_env]
        find_traversals_precondition[of "set_type UNCLASSIFIED reverse_site" bubble_env]
        find_traversals_precondition[of bubble_site bubble_env]
  by (simp add: bubble_site_def reverse_site_def set_type_def)

subsection \<open>Splicing: the search for the right anchor\<close>

lemma first_match_Some:
  "first_match P ys = Some k
   \<longleftrightarrow> k < length ys \<and> P (ys ! k) \<and> list_all (\<lambda>x. \<not> P x) (take k ys)"
proof (induction ys arbitrary: k)
  case Nil
  then show ?case by simp
next
  case (Cons y ys)
  show ?case
  proof (cases "P y")
    case True
    then show ?thesis by (cases k) auto
  next
    case False
    then show ?thesis using Cons.IH by (cases k) auto
  qed
qed

lemma first_match_None:
  "first_match P ys = None \<longleftrightarrow> list_all (\<lambda>x. \<not> P x) ys"
  by (induction ys) auto

lemma first_match_stops:
  assumes "scan_stops_at P xs lo k"
  shows "first_match P (drop lo xs) = Some (k - lo)"
  using assms by (auto simp: first_match_Some scan_stops_at_def)

lemma first_match_runs_out:
  "scan_runs_out P xs lo \<Longrightarrow> first_match P (drop lo xs) = None"
  by (simp add: first_match_None scan_runs_out_def)

lemma find_right_anchor_first_scan:
  assumes "scan_stops_at (first_scan_condition bubble_last) ref_path i k"
  shows "find_right_anchor site ref_path bubble_last i = Inr k"
proof -
  from first_match_stops[OF assms]
  have "first_match (\<lambda>ref_visit. right_anchor_matches ref_visit bubble_last) (drop i ref_path)
        = Some (k - i)"
    by (simp add: first_scan_condition_def[abs_def])
  moreover from assms have "i \<le> k" by (simp add: scan_stops_at_def)
  ultimately show ?thesis by (simp add: find_right_anchor_def)
qed

lemma find_right_anchor_restart:
  assumes "scan_runs_out (first_scan_condition bubble_last) ref_path i"
    and "scan_stops_at (restart_scan_condition bubble_last) ref_path 0 j"
  shows "find_right_anchor site ref_path bubble_last i = Inr j"
proof -
  from first_match_runs_out[OF assms(1)]
  have "first_match (\<lambda>ref_visit. right_anchor_matches ref_visit bubble_last) (drop i ref_path)
        = None"
    by (simp add: first_scan_condition_def[abs_def])
  moreover from first_match_stops[OF assms(2)]
  have "first_match
          (\<lambda>ref_visit. frontier_visit ref_visit True = frontier_visit bubble_last False)
          ref_path = Some j"
    by (simp add: restart_scan_condition_def[abs_def])
  ultimately show ?thesis by (simp add: find_right_anchor_def)
qed

lemma find_right_anchor_fatal:
  assumes "scan_runs_out (first_scan_condition bubble_last) ref_path i"
    and "scan_runs_out (restart_scan_condition bubble_last) ref_path 0"
  shows "find_right_anchor site ref_path bubble_last i
         = Inl (CouldNotFind bubble_last (start site) (end' site))"
proof -
  from first_match_runs_out[OF assms(1)]
  have "first_match (\<lambda>ref_visit. right_anchor_matches ref_visit bubble_last) (drop i ref_path)
        = None"
    by (simp add: first_scan_condition_def[abs_def])
  moreover from first_match_runs_out[OF assms(2)]
  have "first_match
          (\<lambda>ref_visit. frontier_visit ref_visit True = frontier_visit bubble_last False)
          ref_path = None"
    by (simp add: restart_scan_condition_def[abs_def])
  ultimately show ?thesis by (simp add: find_right_anchor_def)
qed

lemma extend_into_allele_anchor:
  assumes "path_in_contents E contents_nodes path"
    and "splice_before ref_path path = Inr (extended_path, i)"
  shows "extend_into_allele E site contents_nodes ref_path path
         = (case find_right_anchor site ref_path (last path) i of
              Inl e \<Rightarrow> Inl e
            | Inr k \<Rightarrow> splice_after ref_path extended_path k)"
  using assms by (auto simp: extend_into_allele_def path_in_contents_def list_all_iff)

text \<open>
  C6: Splicing a bubble path into the reference path, once the bubble's entry has been
  found at position \<open>i\<close>: when the first scan, from \<open>i\<close> on, stops at \<open>k\<close>, the reference
  path is rejoined at \<open>k\<close>; when it runs out, one scan from position 0 is made, and when
  that stops at \<open>j\<close> the reference path is rejoined at \<open>j\<close>; when that runs out too, the
  splicing fails with the error that names the bubble's last visit and the site, and so
  does the step of the seed loop: the set of traversals is not returned unchanged.
\<close>

theorem right_anchor_scan_restarts_once:
  assumes "path_in_contents E contents_nodes path"
    and "splice_before ref_path path = Inr (extended_path, i)"
  shows "(scan_stops_at (first_scan_condition (last path)) ref_path i k
          \<longrightarrow> extend_into_allele E site contents_nodes ref_path path
              = splice_after ref_path extended_path k)
       \<and> (scan_runs_out (first_scan_condition (last path)) ref_path i
          \<and> scan_stops_at (restart_scan_condition (last path)) ref_path 0 j
          \<longrightarrow> extend_into_allele E site contents_nodes ref_path path
              = splice_after ref_path extended_path j)
       \<and> (scan_runs_out (first_scan_condition (last path)) ref_path i
          \<and> scan_runs_out (restart_scan_condition (last path)) ref_path 0
          \<longrightarrow> extend_into_allele E site contents_nodes ref_path path
                = Inl (CouldNotFind (last path) (start site) (end' site))
              \<and> add_bubble E index site contents_nodes ref_path (Inr (support, path)) S
                = Inl (CouldNotFind (last path) (start site) (end' site)))"
proof -
  from assms(2) have ne: "path \<noteq> []" by (auto simp: splice_before_def)
  note anchor = extend_into_allele_anchor[OF assms, of site]
  show ?thesis
  proof (intro conjI impI)
    assume "scan_stops_at (first_scan_condition (last path)) ref_path i k"
    from find_right_anchor_first_scan[OF this, of site]
    show "extend_into_allele E site contents_nodes ref_path path
          = splice_after ref_path extended_path k"
      by (simp add: anchor)
  next
    assume "scan_runs_out (first_scan_condition (last path)) ref_path i
            \<and> scan_stops_at (restart_scan_condition (last path)) ref_path 0 j"
    then have "find_right_anchor site ref_path (last path) i = Inr j"
      by (simp add: find_right_anchor_restart)
    then show "extend_into_allele E site contents_nodes ref_path path
               = splice_after ref_path extended_path j"
      by (simp add: anchor)
  next
    assume "scan_runs_out (first_scan_condition (last path)) ref_path i
            \<and> scan_runs_out (restart_scan_condition (last path)) ref_path 0"
    then have "find_right_anchor site ref_path (last path) i
               = Inl (CouldNotFind (last path) (start site) (end' site))"
      by (simp add: find_right_anchor_fatal)
    then show fatal: "extend_into_allele E site contents_nodes ref_path path
                      = Inl (CouldNotFind (last path) (start site) (end' site))"
      by (simp add: anchor)
    with ne show "add_bubble E index site contents_nodes ref_path (Inr (support, path)) S
                  = Inl (CouldNotFind (last path) (start site) (end' site))"
      by (simp add: add_bubble_def)
  qed
qed

lemmas splice_eval =
  path_in_contents_def splice_before_def splice_after_def scan_stops_at_def scan_runs_out_def
  first_scan_condition_def restart_scan_condition_def left_anchor_matches_def
  right_anchor_matches_def frontier_visit_def bubble_env_def bubble_site_def
  V_def N_def Let_def

theorem right_anchor_scan_restarts_once_witness:
  "extend_into_allele bubble_env bubble_site (map N [1, 2, 3, 4, 5]) [V 1, V 2, V 5]
     [V 1, V 3, V 4, V 5] = Inr [V 1, V 3, V 4, V 5]
   \<and> extend_into_allele bubble_env bubble_site (map N [1, 2, 3, 4, 5]) [V 1, V 2, V 5]
       [V 5, V 3, V 2] = Inr [V 1, V 2, V 5, V 3, V 2, V 5]
   \<and> extend_into_allele bubble_env bubble_site (map N [1, 2, 3, 4, 5]) [V 1, V 2, V 5]
       [V 1, V 3, V 4] = Inl (CouldNotFind (V 4) (V 1) (V 5))
   \<and> add_bubble bubble_env bubble_index bubble_site (map N [1, 2, 3, 4, 5]) [V 1, V 2, V 5]
       (Inr (Support_default, [V 1, V 3, V 4])) {} = Inl (CouldNotFind (V 4) (V 1) (V 5))"
proof -
  let ?cn = "map N [1, 2, 3, 4, 5]"
  let ?ref = "[V 1, V 2, V 5]"
  have a1: "path_in_contents bubble_env ?cn [V 1, V 3, V 4, V 5]"
    and a2: "path_in_contents bubble_env ?cn [V 5, V 3, V 2]"
    and a3: "path_in_contents bubble_env ?cn [V 1, V 3, V 4]"
    by (simp_all add: splice_eval)
  have b1: "splice_before ?ref [V 1, V 3, V 4, V 5] = Inr ([V 1, V 3, V 4, V 5], 0)"
    and b2: "splice_before ?ref [V 5, V 3, V 2] = Inr ([V 1, V 2, V 5, V 3, V 2], 2)"
    and b3: "splice_before ?ref [V 1, V 3, V 4] = Inr ([V 1, V 3, V 4], 0)"
    by (simp_all add: splice_eval)
  have c1: "scan_stops_at (first_scan_condition (last [V 1, V 3, V 4, V 5])) ?ref 0 2"
    by (simp add: splice_eval)
  have c2: "scan_runs_out (first_scan_condition (last [V 5, V 3, V 2])) ?ref 2"
    "scan_stops_at (restart_scan_condition (last [V 5, V 3, V 2])) ?ref 0 1"
    by (simp_all add: splice_eval)
  have c3: "scan_runs_out (first_scan_condition (last [V 1, V 3, V 4])) ?ref 0"
    "scan_runs_out (restart_scan_condition (last [V 1, V 3, V 4])) ?ref 0"
    by (simp_all add: splice_eval)
  from right_anchor_scan_restarts_once[OF a1 b1, where k = 2 and site = bubble_site] c1
  have "extend_into_allele bubble_env bubble_site ?cn ?ref [V 1, V 3, V 4, V 5]
        = Inr [V 1, V 3, V 4, V 5]"
    by (simp add: splice_after_def V_def Let_def)
  moreover
  from right_anchor_scan_restarts_once[OF a2 b2, where j = 1 and site = bubble_site] c2
  have "extend_into_allele bubble_env bubble_site ?cn ?ref [V 5, V 3, V 2]
        = Inr [V 1, V 2, V 5, V 3, V 2, V 5]"
    by (simp add: splice_after_def V_def Let_def)
  moreover
  from right_anchor_scan_restarts_once[OF a3 b3, where site = bubble_site
         and index = bubble_index and support = Support_default and S = "{}"] c3
  have "extend_into_allele bubble_env bubble_site ?cn ?ref [V 1, V 3, V 4]
          = Inl (CouldNotFind (V 4) (V 1) (V 5))
        \<and> add_bubble bubble_env bubble_index bubble_site ?cn ?ref
            (Inr (Support_default, [V 1, V 3, V 4])) {}
          = Inl (CouldNotFind (V 4) (V 1) (V 5))"
    by (simp add: bubble_site_def)
  ultimately show ?thesis by simp
qed

subsection \<open>Seeds with an empty bubble\<close>







subsection \<open>The traversals returned\<close>

lemma add_bubble_result:
  assumes "add_bubble E index site contents_nodes ref_path sup_path S = Inr S'"
  shows "S' = S \<union> {x. spliced E site contents_nodes ref_path sup_path x}"
  using assms
  by (auto simp: add_bubble_def spliced_def split: sum.splits prod.splits if_splits)

lemma node_seeds_result:
  "node_seeds E index site contents_nodes ref_path ns S = Inr S'
   \<Longrightarrow> S' = S \<union> {x. \<exists>n \<in> set ns. \<not> node_skipped E index n
                       \<and> spliced E site contents_nodes ref_path
                           (find_bubble E (Some n) None None index site) x}"
proof (induction ns arbitrary: S)
  case Nil
  then show ?case by simp
next
  case (Cons n ns)
  show ?case
  proof (cases "node_skipped E index n")
    case True
    with Cons.prems have "node_seeds E index site contents_nodes ref_path ns S = Inr S'"
      by (auto simp: node_skipped_def split: if_splits)
    from Cons.IH[OF this] True show ?thesis by auto
  next
    case False
    with Cons.prems obtain S1 where
      s1: "add_bubble E index site contents_nodes ref_path
             (find_bubble E (Some n) None None index site) S = Inr S1"
      and rest: "node_seeds E index site contents_nodes ref_path ns S1 = Inr S'"
      by (auto simp: node_skipped_def split: if_splits sum.splits)
    from add_bubble_result[OF s1] Cons.IH[OF rest] False show ?thesis by auto
  qed
qed

lemma edge_seeds_result:
  "edge_seeds E index site contents_nodes ref_path es S = Inr S'
   \<Longrightarrow> S' = S \<union> {x. \<exists>edge \<in> set es. \<not> edge_skipped E index edge
                       \<and> spliced E site contents_nodes ref_path
                           (find_bubble E None (Some edge) None index site) x}"
proof (induction es arbitrary: S)
  case Nil
  then show ?case by simp
next
  case (Cons edge es)
  show ?case
  proof (cases "edge_skipped E index edge")
    case True
    with Cons.prems have "edge_seeds E index site contents_nodes ref_path es S = Inr S'"
      by (auto simp: edge_skipped_def split: if_splits)
    from Cons.IH[OF this] True show ?thesis by auto
  next
    case False
    with Cons.prems obtain S1 where
      s1: "add_bubble E index site contents_nodes ref_path
             (find_bubble E None (Some edge) None index site) S = Inr S1"
      and rest: "edge_seeds E index site contents_nodes ref_path es S1 = Inr S'"
      by (auto simp: edge_skipped_def split: if_splits sum.splits)
    from add_bubble_result[OF s1] Cons.IH[OF rest] False show ?thesis by auto
  qed
qed

lemma child_seeds_result:
  "child_seeds E index site contents_nodes ref_path cs S = Inr S'
   \<Longrightarrow> S' = S \<union> {x. \<exists>child \<in> set cs.
                       spliced E site contents_nodes ref_path
                         (find_bubble E None None (Some child) index site) x}"
proof (induction cs arbitrary: S)
  case Nil
  then show ?case by simp
next
  case (Cons child cs)
  from Cons.prems obtain S1 where
    s1: "add_bubble E index site contents_nodes ref_path
           (find_bubble E None None (Some child) index site) S = Inr S1"
    and rest: "child_seeds E index site contents_nodes ref_path cs S1 = Inr S'"
    by (auto split: sum.splits)
  from add_bubble_result[OF s1] Cons.IH[OF rest] show ?case by auto
qed

lemma site_traversals_result:
  assumes "site_traversals E index site ref_path = Inr S"
  shows "S = spliced_bubbles E index site ref_path"
proof -
  let ?cn = "fst (shallow_contents E site)"
  from assms obtain S1 S2 where
    n: "node_seeds E index site ?cn ref_path ?cn {} = Inr S1"
    and e: "edge_seeds E index site ?cn ref_path (snd (shallow_contents E site)) S1 = Inr S2"
    and c: "child_seeds E index site ?cn ref_path (children_of_site E site) S2 = Inr S"
    by (auto simp: site_traversals_def Let_def split: sum.splits)
  from node_seeds_result[OF n] edge_seeds_result[OF e] child_seeds_result[OF c]
  show ?thesis unfolding spliced_bubbles_def by blast
qed

lemma inj_emit_traversal: "inj (emit_traversal site_start site_end)"
proof (rule injI)
  fix x y
  assume eq: "emit_traversal site_start site_end x = emit_traversal site_start site_end y"
  show "x = y"
  proof (cases "site_start > site_end")
    case True
    with eq have "map reverse_visit (rev x) = map reverse_visit (rev y)"
      by (simp add: emit_traversal_def)
    then have "map reverse_visit (rev (map reverse_visit (rev x)))
               = map reverse_visit (rev (map reverse_visit (rev y)))" by simp
    then show ?thesis by (simp add: rev_map o_def)
  next
    case False
    with eq show ?thesis by (simp add: emit_traversal_def)
  qed
qed

lemma unique_traversals_distinct:
  assumes "lists_set (traversals_in_order E) S"
  shows "distinct (unique_traversals E site_start site_end ref_path S)"
proof -
  let ?alts = "filter (\<lambda>visits. visits \<noteq> ref_path) (traversals_in_order E S)"
  from assms have "distinct (ref_path # ?alts)" by (simp add: lists_set_def)
  then have "distinct (map (emit_traversal site_start site_end) (ref_path # ?alts))"
    by (auto simp: distinct_map inj_on_def dest: injD[OF inj_emit_traversal])
  then show ?thesis by (simp add: unique_traversals_def)
qed

text \<open>
  What a returning call returns: the traced reference path, then the spliced bubbles of the
  seeds in the iteration order of the set, without the reference path; last visit first and
  each visit reversed when the index runs against the site.
\<close>

lemma find_traversals_shape:
  assumes "find_traversals E site = Inr out"
  shows "type site = ULTRABUBBLE
       \<and> (\<exists>index site_start site_end ref_path alternates.
            select_index E site = Inr index
          \<and> site_position index (start site) = Inr site_start
          \<and> site_position index (end' site) = Inr site_end
          \<and> trace_ref_path E index site (fst (shallow_contents E site)) site_start site_end
              = Inr ref_path
          \<and> site_traversals E index site ref_path = Inr (spliced_bubbles E index site ref_path)
          \<and> alternates = filter (\<lambda>visits. visits \<noteq> ref_path)
                            (traversals_in_order E (spliced_bubbles E index site ref_path))
          \<and> (lists_set (traversals_in_order E) (spliced_bubbles E index site ref_path)
             \<longrightarrow> set alternates = spliced_bubbles E index site ref_path - {ref_path}
                 \<and> distinct alternates \<and> distinct out)
          \<and> (site_start > site_end
             \<longrightarrow> out = map (\<lambda>visits. map reverse_visit (rev visits)) (ref_path # alternates))
          \<and> (\<not> site_start > site_end \<longrightarrow> out = ref_path # alternates))"
proof -
  from assms have ty: "type site = ULTRABUBBLE"
    by (auto simp: find_traversals_def split: if_splits)
  obtain index where i: "select_index E site = Inr index"
    using assms ty by (cases "select_index E site") (simp_all add: find_traversals_def)
  obtain site_start where s: "site_position index (start site) = Inr site_start"
    using assms ty i
    by (cases "site_position index (start site)") (simp_all add: find_traversals_def)
  obtain site_end where e: "site_position index (end' site) = Inr site_end"
    using assms ty i s
    by (cases "site_position index (end' site)") (simp_all add: find_traversals_def)
  obtain ref_path where
    t: "trace_ref_path E index site (fst (shallow_contents E site)) site_start site_end
        = Inr ref_path"
    using assms ty i s e
    by (cases "trace_ref_path E index site (fst (shallow_contents E site)) site_start site_end")
       (simp_all add: find_traversals_def)
  obtain S where st: "site_traversals E index site ref_path = Inr S"
    using assms ty i s e t
    by (cases "site_traversals E index site ref_path") (simp_all add: find_traversals_def)
  from assms ty i s e t st
  have out: "out = unique_traversals E site_start site_end ref_path S"
    by (simp add: find_traversals_def)
  from site_traversals_result[OF st] have S: "S = spliced_bubbles E index site ref_path" .
  let ?alts = "filter (\<lambda>visits. visits \<noteq> ref_path) (traversals_in_order E S)"
  have d: "lists_set (traversals_in_order E) S
           \<longrightarrow> set ?alts = S - {ref_path} \<and> distinct ?alts \<and> distinct out"
    using unique_traversals_distinct[of E S site_start site_end ref_path]
    by (auto simp: lists_set_def out)
  have b: "site_start > site_end
           \<longrightarrow> out = map (\<lambda>visits. map reverse_visit (rev visits)) (ref_path # ?alts)"
    by (simp add: out unique_traversals_def emit_traversal_def[abs_def])
  have f: "\<not> site_start > site_end \<longrightarrow> out = ref_path # ?alts"
    by (simp add: out unique_traversals_def emit_traversal_def[abs_def])
  show ?thesis
  proof (intro conjI exI)
    show "type site = ULTRABUBBLE" by (rule ty)
    show "select_index E site = Inr index" by (rule i)
    show "site_position index (start site) = Inr site_start" by (rule s)
    show "site_position index (end' site) = Inr site_end" by (rule e)
    show "trace_ref_path E index site (fst (shallow_contents E site)) site_start site_end
          = Inr ref_path" by (rule t)
    show "site_traversals E index site ref_path = Inr (spliced_bubbles E index site ref_path)"
      using st S by simp
    show "?alts = filter (\<lambda>visits. visits \<noteq> ref_path)
                   (traversals_in_order E (spliced_bubbles E index site ref_path))"
      by (simp add: S)
    show "lists_set (traversals_in_order E) (spliced_bubbles E index site ref_path)
          \<longrightarrow> set ?alts = spliced_bubbles E index site ref_path - {ref_path}
              \<and> distinct ?alts \<and> distinct out"
      using d by (simp add: S)
    show "site_start > site_end
          \<longrightarrow> out = map (\<lambda>visits. map reverse_visit (rev visits)) (ref_path # ?alts)"
      by (rule b)
    show "\<not> site_start > site_end \<longrightarrow> out = ref_path # ?alts" by (rule f)
  qed
qed

section \<open>The backbone trace: results\<close>

subsection \<open>Entries spaced as the nodes of a path\<close>











subsection \<open>The code walks the entries as the backbone trace does\<close>











subsection \<open>The entries between the boundaries\<close>





subsection \<open>The index and the seeds\<close>








subsection \<open>The traversals returned for a site on a well-formed index\<close>

lemmas flanked_eval =
  flanked_env_def flanked_index_def flanked_arcs_def flanked_get_edge_def
  flanked_visits_left_def unindexed_env_def



lemma find_traversals_flanked:
  "find_traversals flanked_env bubble_site = Inr [[V 1, V 2, V 5], [V 1, V 3, V 4, V 5]]"
  by (simp add: finder_eval flanked_eval bfs_eval)

lemma find_traversals_flanked_reverse:
  "find_traversals flanked_env reverse_site
   = Inr [[R 5, R 2, R 1], [R 5, R 4, R 3, R 1]]"
  by (simp add: finder_eval flanked_eval bfs_eval)








end
